theory Spec2Isabelle
  imports Main "HOL-Library.Word"
begin

unbundle bit_operations_syntax

section \<open>Bytes and C strings\<close>

text \<open>
  A byte is an 8-bit word. A C string argument (\<open>const char *str\<close>) is the list of its
  bytes before the terminating NUL; reading \<open>*str\<close> of the empty string reads that NUL.
\<close>

type_synonym byte = "8 word"

section \<open>Delimiter parsing (\<open>parse_delim\<close>)\<close>

text \<open>
  \<open>strtoul(s, NULL, 16)\<close> of the C library, on a 64-bit \<open>unsigned long\<close>: leading white
  space is skipped, an optional sign and an optional \<open>0x\<close> prefix are accepted, the longest
  run of hexadecimal digits is converted, an overflowing value saturates at \<open>ULONG_MAX\<close>
  and a leading minus sign negates the (unsigned) result.
\<close>

definition isspace_c :: "byte \<Rightarrow> bool" where
  "isspace_c c = (c = 0x20 \<or> (0x09 \<le> c \<and> c \<le> 0x0D))"

definition hexval :: "byte \<Rightarrow> nat option" where
  "hexval c =
     (if 0x30 \<le> c \<and> c \<le> 0x39 then Some (unat c - 0x30)
      else if 0x61 \<le> c \<and> c \<le> 0x66 then Some (unat c - 0x61 + 10)
      else if 0x41 \<le> c \<and> c \<le> 0x46 then Some (unat c - 0x41 + 10)
      else None)"

fun hex_digits :: "nat \<Rightarrow> byte list \<Rightarrow> nat" where
  "hex_digits acc [] = acc"
| "hex_digits acc (c # cs) =
     (case hexval c of None \<Rightarrow> acc | Some d \<Rightarrow> hex_digits (acc * 16 + d) cs)"

definition skip_0x :: "byte list \<Rightarrow> byte list" where
  "skip_0x s =
     (case s of
        c0 # c1 # rest \<Rightarrow> if c0 = 0x30 \<and> (c1 = 0x78 \<or> c1 = 0x58) then rest else s
      | _ \<Rightarrow> s)"

definition strtoul16 :: "byte list \<Rightarrow> 64 word" where
  "strtoul16 s =
     (let s1 = dropWhile isspace_c s;
          neg = (case s1 of c # _ \<Rightarrow> c = 0x2D | [] \<Rightarrow> False);
          s2 = (case s1 of c # cs \<Rightarrow> if c = 0x2D \<or> c = 0x2B then cs else s1 | [] \<Rightarrow> s1);
          v = hex_digits 0 (skip_0x s2)
      in if v \<ge> 2 ^ 64 then - 1
         else if neg then - (of_nat v) else of_nat v)"

text \<open>
  \<open>parse_delim\<close>: \<open>strncmp(str, "\\x", 2)\<close> compares the first two bytes with backslash
  (\<open>0x5C\<close>) and \<open>x\<close>; \<open>strcmp\<close> compares the whole string. The last branch reads the
  first byte of the string, which is the terminating NUL when the string is empty; after
  \<open>& 0xff\<close> the value is the same whether plain \<open>char\<close> is signed or not. The function
  returns a C \<open>int\<close> and has no error return.
\<close>

definition parse_delim :: "byte list \<Rightarrow> int" where
  "parse_delim str =
     (if take 2 str = [0x5C, 0x78] then uint (strtoul16 (drop 2 str) AND 0xff)
      else if str = [0x5C, 0x6E] then 0x0A
      else if str = [0x5C, 0x74] then 0x09
      else (case str of [] \<Rightarrow> 0 | c # _ \<Rightarrow> sint c AND 0xff))"

section \<open>Configuration, process state and environment\<close>

text \<open>
  The flag bits of \<open>conf.flags\<close> are distinct bits of a mask; the mask is the set of the
  flags that are on, and \<open>conf.flags & CONF_F_X\<close> is membership.
\<close>

datatype conf_flag = CONF_F_KEY_DELIM | CONF_F_NULL | CONF_F_TEE | CONF_F_LINE

text \<open>
  The fields of \<open>struct conf\<close> that are fixed once the command line is parsed.
  \<open>msg_cnt\<close> is a 64-bit integer that the code compares with the unsigned 64-bit counters
  of \<open>stats\<close>, so it is kept as its bit pattern. \<open>char_signed\<close> is not a field of the C
  struct: it records whether plain \<open>char\<close> is a signed type on the platform, which decides
  the value of the cast \<open>(int)buf[len-1]\<close>.
\<close>

record conf =
  delim :: int
  key_delim :: int
  flags :: "conf_flag set"
  msg_cnt :: "64 word"
  partition_c :: int
  exit_eof :: bool
  char_signed :: bool

definition RD_KAFKA_PARTITION_UA :: int where
  "RD_KAFKA_PARTITION_UA = - 1"

definition RD_KAFKA_MSG_F_FREE :: int where
  "RD_KAFKA_MSG_F_FREE = 1"

definition RD_KAFKA_MSG_F_COPY :: int where
  "RD_KAFKA_MSG_F_COPY = 2"

text \<open>
  The arguments of one \<open>rd_kafka_produce\<close> call. A pointer argument is the bytes it
  points to (its length is the length argument), or \<open>None\<close> for \<open>NULL\<close>.
\<close>

record out_msg =
  m_buf :: "byte list option"
  m_len :: nat
  m_key :: "byte list option"
  m_key_len :: nat
  m_flags :: int

text \<open>
  \<open>FATAL\<close> prints a message and calls \<open>exit(1)\<close>; a function that can reach it returns
  \<open>Inl\<close> of the reason. \<open>Memory_fault\<close> stands for the undefined behaviour of an
  access through \<open>NULL\<close> or outside an array.
\<close>

datatype fatal =
    Terminated_while_producing nat
  | Failed_to_produce nat nat
  | All_brokers_down
  | Tee_write_error nat
  | Unable_to_read_message
  | Failed_to_query_metadata
  | No_such_topic
  | Topic_error_md
  | Topic_has_no_partitions
  | Failed_to_start_consuming int
  | Partition_does_not_exist
  | Topic_error int
  | Memory_fault

text \<open>
  What the broker client does is given from outside. The immediate result of one
  \<open>rd_kafka_produce\<close> call is \<open>Enqueued\<close> (the call did not return -1), \<open>Queue_full\<close>
  (\<open>RD_KAFKA_RESP_ERR__QUEUE_FULL\<close>) or another error code. An \<open>event\<close> is one callback
  that \<open>rd_kafka_poll\<close> dispatches: a delivery report, with or without an error, or an
  error event.
\<close>

datatype produce_result = Enqueued | Queue_full | Produce_error nat

datatype event = Delivery_ok | Delivery_failed | Err_all_brokers_down | Err_other

record attempt =
  a_result :: produce_result
  a_events :: "event list"

text \<open>
  The part of the environment that does not change: \<open>w_signal k\<close> says that a
  termination signal (handler \<open>term\<close>: \<open>conf.run = 0\<close>) has arrived between the previous
  read of \<open>conf.run\<close> and its \<open>k\<close>-th read; \<open>w_stdout_limit\<close> is the number of bytes
  standard output accepts before writes fail (\<open>None\<close>: it never fails); \<open>w_read_error\<close>
  says that the input ends in a read error instead of end-of-file.
\<close>

record world =
  w_signal :: "nat \<Rightarrow> bool"
  w_stdout_limit :: "nat option"
  w_read_error :: bool

text \<open>
  A message that the consume queue delivers (\<open>rd_kafka_message_t\<close>): its \<open>err\<close> field
  (no error, \<open>RD_KAFKA_RESP_ERR__PARTITION_EOF\<close>, or any other error), its partition,
  its offset, and its payload and key (\<open>None\<close> for \<open>NULL\<close>).
\<close>

datatype rk_err = NO_ERROR | PARTITION_EOF | OTHER_ERROR

record rkmessage =
  rkm_err :: rk_err
  rkm_partition :: int
  rkm_offset :: int
  rkm_payload :: "byte list option"
  rkm_key :: "byte list option"

text \<open>
  The globals of the program (\<open>conf.run\<close>, \<open>conf.exitcode\<close>, \<open>stats\<close>, the partition EOF
  table), the read buffer of \<open>producer_run\<close>, the calls made to the outside so far and
  the results the broker client is still to give. \<open>sbuf\<close> is the identity of the
  allocation the read buffer points to (\<open>None\<close>: \<open>NULL\<close>); \<open>allocs\<close> counts the allocations
  made, so a new allocation is distinct from all earlier ones; \<open>owned_by_client\<close> lists the
  allocations whose ownership went to the broker client. \<open>polled\<close> lists the timeouts (in
  milliseconds) of the \<open>rd_kafka_poll\<close> calls, \<open>produced\<close> the messages that
  \<open>rd_kafka_produce\<close> accepted, \<open>rendered\<close> the messages given to \<open>fmt_msg_output\<close>,
  \<open>stored\<close> the partition and offset of each \<open>rd_kafka_offset_store\<close> call, \<open>stopped\<close> the
  partition of each \<open>rd_kafka_consume_stop\<close> call and \<open>started\<close> that of each
  \<open>rd_kafka_consume_start_queue\<close> call. \<open>run_reads\<close> counts the reads of \<open>conf.run\<close>
  made so far.
\<close>

record state =
  run :: bool
  exitcode :: int
  run_reads :: nat
  tx :: "64 word"
  tx_err_q :: "64 word"
  tx_err_dr :: "64 word"
  tx_delivered :: "64 word"
  rx :: "64 word"
  part_eof :: "int list option"
  part_eof_cnt :: int
  part_eof_thres :: int
  sbuf :: "nat option"
  size_c :: nat
  allocs :: nat
  owned_by_client :: "nat list"
  produced :: "out_msg list"
  tee_out :: "byte list"
  attempts :: "attempt list"
  polled :: "nat list"
  rendered :: "rkmessage list"
  stored :: "(int \<times> int) list"
  stopped :: "int list"
  started :: "int list"

text \<open>
  The initial values: \<open>struct conf conf = { .run = 1, ... }\<close>, zeroed \<open>stats\<close>,
  \<open>part_eof = NULL\<close>, \<open>part_eof_cnt = 0\<close>, \<open>part_eof_thres = 0\<close>, and the locals
  \<open>sbuf = NULL\<close>, \<open>size = 0\<close> of \<open>producer_run\<close>.
\<close>

definition state_init :: "attempt list \<Rightarrow> state" where
  "state_init atts =
     \<lparr>run = True, exitcode = 0, run_reads = 0,
      tx = 0, tx_err_q = 0, tx_err_dr = 0, tx_delivered = 0, rx = 0,
      part_eof = None, part_eof_cnt = 0, part_eof_thres = 0,
      sbuf = None, size_c = 0, allocs = 0, owned_by_client = [],
      produced = [], tee_out = [], attempts = atts,
      polled = [], rendered = [], stored = [], stopped = [], started = []\<rparr>"

text \<open>
  Every read of \<open>conf.run\<close> first takes in a signal that has arrived since the last read.
\<close>

definition read_run :: "world \<Rightarrow> state \<Rightarrow> state" where
  "read_run w s = s\<lparr>run := run s \<and> \<not> w_signal w (run_reads s), run_reads := Suc (run_reads s)\<rparr>"

section \<open>Callbacks and the send loop (\<open>dr_msg_cb\<close>, \<open>error_cb\<close>, \<open>produce\<close>)\<close>

definition dr_msg_cb :: "bool \<Rightarrow> state \<Rightarrow> state" where
  "dr_msg_cb err s =
     (if err then s\<lparr>tx_err_dr := tx_err_dr s + 1\<rparr>
      else s\<lparr>tx_delivered := tx_delivered s + 1\<rparr>)"

definition error_cb :: "bool \<Rightarrow> state \<Rightarrow> fatal + state" where
  "error_cb all_down s = (if all_down then Inl All_brokers_down else Inr s)"

fun dispatch :: "event \<Rightarrow> state \<Rightarrow> fatal + state" where
  "dispatch Delivery_ok s = Inr (dr_msg_cb False s)"
| "dispatch Delivery_failed s = Inr (dr_msg_cb True s)"
| "dispatch Err_all_brokers_down s = error_cb True s"
| "dispatch Err_other s = error_cb False s"

fun dispatch_all :: "event list \<Rightarrow> state \<Rightarrow> fatal + state" where
  "dispatch_all [] s = Inr s"
| "dispatch_all (e # es) s =
     (case dispatch e s of Inl f \<Rightarrow> Inl f | Inr s' \<Rightarrow> dispatch_all es s')"

text \<open>
  \<open>rd_kafka_poll(conf.rk, timeout_ms)\<close> waits at most \<open>timeout_ms\<close> milliseconds and
  runs the callbacks of the events \<open>es\<close> that are ready.
\<close>

definition rd_kafka_poll :: "nat \<Rightarrow> event list \<Rightarrow> state \<Rightarrow> fatal + state" where
  "rd_kafka_poll timeout_ms es s = dispatch_all es (s\<lparr>polled := polled s @ [timeout_ms]\<rparr>)"

text \<open>
  \<open>produce\<close>: the \<open>do ... while (1)\<close> loop takes one scripted attempt per iteration:
  the result of its \<open>rd_kafka_produce\<close> call and the events of the \<open>rd_kafka_poll\<close> call
  that follows it (with timeout 5 inside the loop after a full queue, with timeout 0 after
  the loop). The result is \<open>None\<close> when the script ends before the loop does: nothing is
  then known about whether the call returns.
\<close>

fun produce_loop :: "world \<Rightarrow> out_msg \<Rightarrow> attempt list \<Rightarrow> state \<Rightarrow> (fatal + state) option" where
  "produce_loop w m [] s = None"
| "produce_loop w m (a # as) s =
     (let s1 = read_run w s in
      if \<not> run s1 then Some (Inl (Terminated_while_producing (m_len m)))
      else (case a_result a of
              Enqueued \<Rightarrow>
                (case rd_kafka_poll 0 (a_events a)
                        (s1\<lparr>tx := tx s1 + 1, produced := produced s1 @ [m], attempts := as\<rparr>) of
                   Inl f \<Rightarrow> Some (Inl f)
                 | Inr s2 \<Rightarrow> Some (Inr s2))
            | Produce_error e \<Rightarrow> Some (Inl (Failed_to_produce (m_len m) e))
            | Queue_full \<Rightarrow>
                (case rd_kafka_poll 5 (a_events a)
                        (s1\<lparr>tx_err_q := tx_err_q s1 + 1, attempts := as\<rparr>) of
                   Inl f \<Rightarrow> Some (Inl f)
                 | Inr s2 \<Rightarrow> produce_loop w m as s2)))"

definition produce :: "world \<Rightarrow> out_msg \<Rightarrow> state \<Rightarrow> (fatal + state) option" where
  "produce w m s = produce_loop w m (attempts s) s"

section \<open>Record framing in stream mode (\<open>producer_run\<close>, reading loop)\<close>

text \<open>
  The cast \<open>(int)buf[len-1]\<close> of a plain \<open>char\<close>: sign-extended where \<open>char\<close> is signed.
\<close>

definition char_to_int :: "conf \<Rightarrow> byte \<Rightarrow> int" where
  "char_to_int cf c = (if char_signed cf then sint c else uint c)"

text \<open>
  \<open>memchr(buf, c, n)\<close>: the index of the first of the first \<open>n\<close> bytes that equals
  \<open>c\<close> converted to \<open>unsigned char\<close>, or \<open>None\<close> for a \<open>NULL\<close> result.
\<close>

definition memchr :: "byte list \<Rightarrow> int \<Rightarrow> nat \<Rightarrow> nat option" where
  "memchr buf c n =
     (let k = length (takeWhile (\<lambda>b. b \<noteq> word_of_int c) (take n buf))
      in if k < length (take n buf) then Some k else None)"

text \<open>
  ``Shave off delimiter'': the length after the test of the last byte (\<open>len > 0\<close> here).
\<close>

definition shave :: "conf \<Rightarrow> byte list \<Rightarrow> nat \<Rightarrow> nat" where
  "shave cf buf len = (if char_to_int cf (buf ! (len - 1)) = delim cf then len - 1 else len)"

text \<open>
  ``Extract key, if desired and found'': from the buffer and the shaved length to the
  produce arguments and the message flags so far. The value starts \<open>key_len + 1\<close> bytes
  into the buffer when the key delimiter is found at index \<open>key_len\<close>.
\<close>

definition extract_key :: "conf \<Rightarrow> byte list \<Rightarrow> nat \<Rightarrow> out_msg" where
  "extract_key cf buf len =
     (case (if CONF_F_KEY_DELIM \<in> flags cf then memchr buf (key_delim cf) len else None) of
        None \<Rightarrow>
          \<lparr>m_buf = Some (take len buf), m_len = len, m_key = None, m_key_len = 0, m_flags = 0\<rparr>
      | Some key_len \<Rightarrow>
          (let len' = len - (key_len + 1);
               msgflags = 0 OR RD_KAFKA_MSG_F_COPY
           in \<lparr>m_buf = (if CONF_F_NULL \<in> flags cf \<and> len' = 0 then None
                        else Some (take len' (drop (key_len + 1) buf))),
               m_len = len',
               m_key = (if CONF_F_NULL \<in> flags cf \<and> key_len = 0 then None
                        else Some (take key_len buf)),
               m_key_len = key_len,
               m_flags = msgflags\<rparr>))"

text \<open>
  The choice between letting the broker client own the buffer (\<open>RD_KAFKA_MSG_F_FREE\<close>)
  and having it copy the data (\<open>RD_KAFKA_MSG_F_COPY\<close>).
\<close>

definition ownership :: "conf \<Rightarrow> out_msg \<Rightarrow> out_msg" where
  "ownership cf m =
     (if m_flags m AND RD_KAFKA_MSG_F_COPY = 0 \<and> m_len m > 1024 \<and> CONF_F_TEE \<notin> flags cf
      then m\<lparr>m_flags := m_flags m OR RD_KAFKA_MSG_F_FREE\<rparr>
      else m\<lparr>m_flags := m_flags m OR RD_KAFKA_MSG_F_COPY\<rparr>)"

text \<open>
  The loop body up to the \<open>produce\<close> call, for the \<open>len\<close> bytes that \<open>getdelim\<close> has read
  into the buffer: \<open>None\<close> is \<open>continue\<close> (nothing is sent).
\<close>

definition frame_record :: "conf \<Rightarrow> byte list \<Rightarrow> out_msg option" where
  "frame_record cf buf =
     (let len = length buf in
      if len = 0 then None
      else let len = shave cf buf len in
        if len = 0 then None
        else Some (ownership cf (extract_key cf buf len)))"

text \<open>
  \<open>getdelim(&sbuf, &size, delim, fp)\<close> on the bytes still to come from \<open>fp\<close>: the bytes
  up to and including the first one equal to the delimiter (as \<open>unsigned char\<close>), or all of
  them when there is none, and the bytes left; \<open>None\<close> (the result -1) when no byte is left.
\<close>

definition getdelim :: "int \<Rightarrow> byte list \<Rightarrow> (byte list \<times> byte list) option" where
  "getdelim d inp =
     (if inp = [] then None
      else (case dropWhile (\<lambda>b. b \<noteq> word_of_int d) inp of
              [] \<Rightarrow> Some (inp, [])
            | b # rest \<Rightarrow> Some (takeWhile (\<lambda>b. b \<noteq> word_of_int d) inp @ [b], rest)))"

text \<open>
  \<open>getdelim\<close> allocates a buffer when \<open>sbuf\<close> is \<open>NULL\<close> and otherwise keeps (or grows)
  the one it is given; the capacity \<open>size\<close> is at least the bytes read plus the NUL.
\<close>

definition getdelim_buffer :: "nat \<Rightarrow> state \<Rightarrow> state" where
  "getdelim_buffer len s =
     (case sbuf s of
        None \<Rightarrow> s\<lparr>sbuf := Some (allocs s), allocs := Suc (allocs s), size_c := len + 1\<rparr>
      | Some a \<Rightarrow> s\<lparr>size_c := max (size_c s) (len + 1)\<rparr>)"

text \<open>
  \<open>fwrite(sbuf, orig_len, 1, stdout)\<close>: \<open>None\<close> when the write fails.
\<close>

definition tee_write :: "world \<Rightarrow> byte list \<Rightarrow> state \<Rightarrow> state option" where
  "tee_write w bs s =
     (case w_stdout_limit w of
        None \<Rightarrow> Some (s\<lparr>tee_out := tee_out s @ bs\<rparr>)
      | Some lim \<Rightarrow>
          if length (tee_out s) + length bs \<le> lim then Some (s\<lparr>tee_out := tee_out s @ bs\<rparr>)
          else None)"

text \<open>
  The loop body after framing: \<open>produce\<close>, the tee write, giving up the buffer when the
  broker client owns it, and the \<open>-c\<close> limit.
\<close>

definition send_record :: "conf \<Rightarrow> world \<Rightarrow> byte list \<Rightarrow> out_msg \<Rightarrow> state \<Rightarrow> (fatal + state) option" where
  "send_record cf w buf m s =
     (case produce w m s of
        None \<Rightarrow> None
      | Some (Inl f) \<Rightarrow> Some (Inl f)
      | Some (Inr s1) \<Rightarrow>
          (case (if CONF_F_TEE \<in> flags cf then tee_write w buf s1 else Some s1) of
             None \<Rightarrow> Some (Inl (Tee_write_error (length buf)))
           | Some s2 \<Rightarrow>
               (let s3 = (if m_flags m AND RD_KAFKA_MSG_F_FREE \<noteq> 0
                          then s2\<lparr>owned_by_client := owned_by_client s2 @ (case sbuf s2 of None \<Rightarrow> [] | Some a \<Rightarrow> [a]),
                                  sbuf := None, size_c := 0\<rparr>
                          else s2);
                    s4 = (if tx s3 = msg_cnt cf then s3\<lparr>run := False\<rparr> else s3)
                in Some (Inr s4))))"

definition stream_iter :: "conf \<Rightarrow> world \<Rightarrow> byte list \<Rightarrow> state \<Rightarrow> (fatal + state) option" where
  "stream_iter cf w buf s =
     (case frame_record cf buf of
        None \<Rightarrow> Some (Inr s)
      | Some m \<Rightarrow> send_record cf w buf m s)"

text \<open>
  The reading loop \<open>while (conf.run && (len = getdelim(...)) != -1)\<close> and the test of
  \<open>feof\<close> that follows it.
\<close>

function stream_loop :: "conf \<Rightarrow> world \<Rightarrow> byte list \<Rightarrow> state \<Rightarrow> (fatal + state) option" where
  "stream_loop cf w inp s =
     (let s1 = read_run w s in
      if \<not> run s1 then Some (Inr (read_run w s1))
      else (case getdelim (delim cf) inp of
              None \<Rightarrow>
                (let s2 = read_run w s1 in
                 if run s2 \<and> w_read_error w then Some (Inl Unable_to_read_message)
                 else Some (Inr s2))
            | Some (buf, rest) \<Rightarrow>
                (case stream_iter cf w buf (getdelim_buffer (length buf) s1) of
                   None \<Rightarrow> None
                 | Some (Inl f) \<Rightarrow> Some (Inl f)
                 | Some (Inr s2) \<Rightarrow> stream_loop cf w rest s2)))"
  by pat_completeness auto
termination
proof (relation "measure (\<lambda>(cf, w, inp, s). length inp)")
  show "wf (measure (\<lambda>(cf, w, inp, s). length inp))" by simp
next
  fix cf :: conf and w :: world and inp :: "byte list" and s s1 :: state
    and x2 :: "byte list \<times> byte list" and buf rest :: "byte list"
  assume g: "getdelim (delim cf) inp = Some x2" and x: "(buf, rest) = x2"
  have "length (dropWhile (\<lambda>b. b \<noteq> word_of_int (delim cf)) inp) \<le> length inp"
    by (rule length_dropWhile_le)
  with g x have "length rest < length inp"
    by (auto simp: getdelim_def split: if_splits list.splits
          dest!: arg_cong [where f = length])
  then show "((cf, w, rest, s1), (cf, w, inp, s)) \<in> measure (\<lambda>(cf, w, inp, s). length inp)"
    for s1 by simp
qed

section \<open>Whole-file mode and \<open>producer_run\<close>\<close>

text \<open>
  What \<open>open\<close>, \<open>fstat\<close> and \<open>mmap\<close> give for one path: a failure of one of the three
  calls, or the contents of the file. \<open>Mmap_fails\<close> is a file of non-zero size.
\<close>

datatype infile = Open_fails | Stat_fails | Mmap_fails | Contents "byte list"

text \<open>\<open>produce_file\<close> returns the file length, or -1 on failure.\<close>

definition produce_file :: "world \<Rightarrow> infile \<Rightarrow> state \<Rightarrow> (fatal + int \<times> state) option" where
  "produce_file w f s =
     (case f of
        Open_fails \<Rightarrow> Some (Inr (- 1, s))
      | Stat_fails \<Rightarrow> Some (Inr (- 1, s))
      | Mmap_fails \<Rightarrow> Some (Inr (- 1, s))
      | Contents bs \<Rightarrow>
          if length bs = 0 then Some (Inr (0, s))
          else (case produce w \<lparr>m_buf = Some bs, m_len = length bs, m_key = None, m_key_len = 0,
                                 m_flags = RD_KAFKA_MSG_F_COPY\<rparr> s of
                  None \<Rightarrow> None
                | Some (Inl e) \<Rightarrow> Some (Inl e)
                | Some (Inr s') \<Rightarrow> Some (Inr (int (length bs), s'))))"

text \<open>The loop \<open>for (i = 0 ; i < pathcnt ; i++)\<close> with its counter \<open>good\<close>.\<close>

fun produce_files :: "world \<Rightarrow> infile list \<Rightarrow> int \<Rightarrow> state \<Rightarrow> (fatal + int \<times> state) option" where
  "produce_files w [] good s = Some (Inr (good, s))"
| "produce_files w (f # fs) good s =
     (case produce_file w f s of
        None \<Rightarrow> None
      | Some (Inl e) \<Rightarrow> Some (Inl e)
      | Some (Inr (r, s')) \<Rightarrow> produce_files w fs (if r \<noteq> - 1 then good + 1 else good) s')"

definition batch_mode :: "world \<Rightarrow> infile list \<Rightarrow> state \<Rightarrow> (fatal + state) option" where
  "batch_mode w paths s =
     (case produce_files w paths 0 s of
        None \<Rightarrow> None
      | Some (Inl e) \<Rightarrow> Some (Inl e)
      | Some (Inr (good, s')) \<Rightarrow>
          if good = 0 then Some (Inr (s'\<lparr>exitcode := 1\<rparr>))
          else Some (Inr s'))"

text \<open>
  ``Wait for all messages to be transmitted'': \<open>conf.run = 1\<close>, then
  \<open>while (conf.run && rd_kafka_outq_len(conf.rk)) rd_kafka_poll(conf.rk, 50)\<close>. The list
  holds the events of the polls made while the out queue is not empty; the queue is empty
  when the list is.
\<close>

fun outq_wait :: "world \<Rightarrow> event list list \<Rightarrow> state \<Rightarrow> fatal + state" where
  "outq_wait w [] s = Inr (read_run w s)"
| "outq_wait w (es # rest) s =
     (let s1 = read_run w s in
      if \<not> run s1 then Inr s1
      else (case rd_kafka_poll 50 es s1 of Inl f \<Rightarrow> Inl f | Inr s2 \<Rightarrow> outq_wait w rest s2))"

text \<open>
  \<open>producer_run(fp, paths, pathcnt)\<close> once producer and topic exist: \<open>inp\<close> is what \<open>fp\<close>
  gives, \<open>paths\<close> the files named on the command line, \<open>outq\<close> the polls of the final wait.
\<close>

definition producer_run ::
  "conf \<Rightarrow> world \<Rightarrow> byte list \<Rightarrow> infile list \<Rightarrow> event list list \<Rightarrow> state \<Rightarrow> (fatal + state) option" where
  "producer_run cf w inp paths outq s =
     (case (if length paths > 0 \<and> CONF_F_LINE \<notin> flags cf then batch_mode w paths s
            else stream_loop cf w inp s) of
        None \<Rightarrow> None
      | Some (Inl e) \<Rightarrow> Some (Inl e)
      | Some (Inr s1) \<Rightarrow>
          (case outq_wait w outq (s1\<lparr>run := True\<rparr>) of
             Inl e \<Rightarrow> Some (Inl e)
           | Inr s2 \<Rightarrow>
               Some (Inr (if tx_err_q s2 \<noteq> 0 \<or> tx_err_dr s2 \<noteq> 0 then s2\<lparr>exitcode := 1\<rparr> else s2))))"

text \<open>
  The exit status of the process: \<open>exit(conf.exitcode)\<close> at the end of \<open>main\<close>, or
  \<open>exit(1)\<close> in \<open>FATAL\<close>.
\<close>

definition exit_status :: "fatal + state \<Rightarrow> int" where
  "exit_status r = (case r of Inl e \<Rightarrow> 1 | Inr s \<Rightarrow> exitcode s)"

section \<open>The consumer (\<open>consume_cb\<close>, \<open>consumer_run\<close>)\<close>

text \<open>
  \<open>consume_cb\<close>, called for each message the queue delivers. A read or write of
  \<open>part_eof[rkmessage->partition]\<close> outside the array, or with \<open>part_eof\<close> still \<open>NULL\<close>, is
  a memory fault. The read of \<open>conf.run\<close> that only chooses the text of a log message is
  left out.
\<close>

definition consume_cb :: "conf \<Rightarrow> world \<Rightarrow> rkmessage \<Rightarrow> state \<Rightarrow> fatal + state" where
  "consume_cb cf w rkm s0 =
     (let s = read_run w s0 in
      if \<not> run s then Inr s
      else if rkm_err rkm \<noteq> NO_ERROR then
        (if rkm_err rkm = PARTITION_EOF then
           (let s1 = s\<lparr>stored := stored s @
                        [(rkm_partition rkm,
                          if rkm_offset rkm = 0 then 0 else rkm_offset rkm - 1)]\<rparr>
            in if exit_eof cf then
                 (case part_eof s1 of
                    None \<Rightarrow> Inl Memory_fault
                  | Some arr \<Rightarrow>
                      if rkm_partition rkm < 0 \<or> int (length arr) \<le> rkm_partition rkm
                      then Inl Memory_fault
                      else if arr ! nat (rkm_partition rkm) = 0 then
                        (let s2 = s1\<lparr>stopped := stopped s1 @ [rkm_partition rkm],
                                     part_eof := Some (arr[nat (rkm_partition rkm) := 1]),
                                     part_eof_cnt := part_eof_cnt s1 + 1\<rparr>
                         in if part_eof_cnt s2 \<ge> part_eof_thres s2
                            then Inr (s2\<lparr>run := False\<rparr>) else Inr s2)
                      else Inr s1)
               else Inr s1)
         else Inl (Topic_error (rkm_partition rkm)))
      else
        (let s1 = s\<lparr>rendered := rendered s @ [rkm],
                     stored := stored s @ [(rkm_partition rkm, rkm_offset rkm)]\<rparr>;
             s2 = s1\<lparr>rx := rx s1 + 1\<rparr>
         in if rx s2 = msg_cnt cf then Inr (s2\<lparr>run := False\<rparr>) else Inr s2))"

text \<open>
  \<open>rd_kafka_consume_callback_queue(rkqu, 100, consume_cb, fp)\<close>: the callback runs on each
  message of the batch the queue holds.
\<close>

fun consume_callback_queue :: "conf \<Rightarrow> world \<Rightarrow> rkmessage list \<Rightarrow> state \<Rightarrow> fatal + state" where
  "consume_callback_queue cf w [] s = Inr s"
| "consume_callback_queue cf w (rkm # rest) s =
     (case consume_cb cf w rkm s of
        Inl f \<Rightarrow> Inl f
      | Inr s' \<Rightarrow> consume_callback_queue cf w rest s')"

text \<open>
  The answer of \<open>rd_kafka_metadata\<close> for the topic: whether the query failed, the number
  of topics, whether the topic carries an error, and the ids of its partitions.
\<close>

record metadata =
  md_failed :: bool
  topic_cnt :: nat
  topic_err :: bool
  partitions :: "int list"

text \<open>
  \<open>consumer_run\<close> from the metadata query to the set-up of the EOF table; \<open>calloc\<close> is
  taken to succeed.
\<close>

definition consumer_init :: "conf \<Rightarrow> metadata \<Rightarrow> state \<Rightarrow> fatal + state" where
  "consumer_init cf md s =
     (if md_failed md then Inl Failed_to_query_metadata
      else if topic_cnt md = 0 then Inl No_such_topic
      else if topic_err md then Inl Topic_error_md
      else if length (partitions md) = 0 then Inl Topic_has_no_partitions
      else if exit_eof cf then
        Inr (s\<lparr>part_eof := Some (replicate (length (partitions md)) 0),
               part_eof_thres := (if partition_c cf \<noteq> RD_KAFKA_PARTITION_UA then 1
                                  else int (length (partitions md)))\<rparr>)
      else Inr s)"

text \<open>
  ``Start consuming from all wanted partitions'': the loop over the partition ids, where
  \<open>start_fails\<close> tells for which partitions \<open>rd_kafka_consume_start_queue\<close> returns -1. The
  result also tells whether the loop was left by \<open>break\<close>.
\<close>

fun consume_start :: "conf \<Rightarrow> (int \<Rightarrow> bool) \<Rightarrow> int list \<Rightarrow> state \<Rightarrow> fatal + bool \<times> state" where
  "consume_start cf start_fails [] s = Inr (False, s)"
| "consume_start cf start_fails (p # ps) s =
     (if partition_c cf \<noteq> RD_KAFKA_PARTITION_UA \<and> partition_c cf \<noteq> p
      then consume_start cf start_fails ps s
      else if start_fails p then Inl (Failed_to_start_consuming p)
      else if partition_c cf \<noteq> RD_KAFKA_PARTITION_UA
      then Inr (True, s\<lparr>started := started s @ [p]\<rparr>)
      else consume_start cf start_fails ps (s\<lparr>started := started s @ [p]\<rparr>))"

text \<open>
  The receive loop \<open>while (conf.run)\<close>: each iteration takes one scripted pair, the
  messages that \<open>rd_kafka_consume_callback_queue\<close> delivers and the events of the
  \<open>rd_kafka_poll\<close> call. The result is \<open>None\<close> when the script ends with the loop still
  running.
\<close>

fun consumer_loop ::
  "conf \<Rightarrow> world \<Rightarrow> (rkmessage list \<times> event list) list \<Rightarrow> state \<Rightarrow> (fatal + state) option" where
  "consumer_loop cf w [] s =
     (let s1 = read_run w s in if \<not> run s1 then Some (Inr s1) else None)"
| "consumer_loop cf w (b # bs) s =
     (let s1 = read_run w s in
      if \<not> run s1 then Some (Inr s1)
      else (case consume_callback_queue cf w (fst b) s1 of
              Inl f \<Rightarrow> Some (Inl f)
            | Inr s2 \<Rightarrow>
                (case rd_kafka_poll 0 (snd b) s2 of
                   Inl f \<Rightarrow> Some (Inl f)
                 | Inr s3 \<Rightarrow> consumer_loop cf w bs s3)))"

text \<open>
  \<open>consumer_run\<close> up to the end of the receive loop (stopping the partitions and the
  final wait for outstanding requests follow it).
\<close>

definition consumer_run ::
  "conf \<Rightarrow> world \<Rightarrow> metadata \<Rightarrow> (int \<Rightarrow> bool) \<Rightarrow> (rkmessage list \<times> event list) list \<Rightarrow> state
     \<Rightarrow> (fatal + state) option" where
  "consumer_run cf w md start_fails batches s =
     (case consumer_init cf md s of
        Inl f \<Rightarrow> Some (Inl f)
      | Inr s1 \<Rightarrow>
          (case consume_start cf start_fails (partitions md) s1 of
             Inl f \<Rightarrow> Some (Inl f)
           | Inr (broke, s2) \<Rightarrow>
               if partition_c cf \<noteq> RD_KAFKA_PARTITION_UA \<and> \<not> broke
               then Some (Inl Partition_does_not_exist)
               else consumer_loop cf w batches s2))"

section \<open>Reference inputs\<close>

text \<open>
  The configuration after \<open>argparse\<close> in producer mode with no option but the required
  ones (\<open>delim\<close> is \<open>parse_delim\<close> of the default newline string), on a platform with signed
  \<open>char\<close>; an environment in which no signal arrives and no write fails; an attempt that the
  broker client accepts at once.
\<close>

definition conf_init :: conf where
  "conf_init =
     \<lparr>delim = 0x0A, key_delim = 0, flags = {}, msg_cnt = 0,
      partition_c = RD_KAFKA_PARTITION_UA, exit_eof = False, char_signed = True\<rparr>"

definition quiet :: world where
  "quiet = \<lparr>w_signal = (\<lambda>k. False), w_stdout_limit = None, w_read_error = False\<rparr>"

definition accepted :: attempt where
  "accepted = \<lparr>a_result = Enqueued, a_events = []\<rparr>"

section \<open>Notions used in the statements\<close>


text \<open>
  The buffers that successive \<open>getdelim\<close> calls read from an input, and the bytes that
  shaving takes off the end of a buffer (its delimiter, or nothing).
\<close>

function chunks :: "int \<Rightarrow> byte list \<Rightarrow> byte list list" where
  "chunks d inp =
     (case getdelim d inp of None \<Rightarrow> [] | Some (buf, rest) \<Rightarrow> buf # chunks d rest)"
  by pat_completeness auto
termination
proof (relation "measure (\<lambda>(d, inp). length inp)")
  show "wf (measure (\<lambda>(d, inp). length inp))" by simp
next
  fix d :: int and inp :: "byte list" and x2 :: "byte list \<times> byte list"
    and buf rest :: "byte list"
  assume g: "getdelim d inp = Some x2" and x: "(buf, rest) = x2"
  have "length (dropWhile (\<lambda>b. b \<noteq> word_of_int d) inp) \<le> length inp"
    by (rule length_dropWhile_le)
  with g x have "length rest < length inp"
    by (auto simp: getdelim_def split: if_splits list.splits
          dest!: arg_cong [where f = length])
  then show "((d, rest), (d, inp)) \<in> measure (\<lambda>(d, inp). length inp)"
    by simp
qed

declare stream_loop.simps [simp del] chunks.simps [simp del]


text \<open>
  In whole-file mode a file fails when \<open>produce_file\<close> returns -1 for it; the messages
  of a list of files are those of the files that are read and not empty, in order.
\<close>

definition file_fails :: "infile \<Rightarrow> bool" where
  "file_fails f = (case f of Contents bs \<Rightarrow> False | _ \<Rightarrow> True)"

fun file_msgs :: "infile list \<Rightarrow> out_msg list" where
  "file_msgs [] = []"
| "file_msgs (Contents bs # fs) =
     (if bs = [] then file_msgs fs
      else \<lparr>m_buf = Some bs, m_len = length bs, m_key = None, m_key_len = 0,
            m_flags = RD_KAFKA_MSG_F_COPY\<rparr> # file_msgs fs)"
| "file_msgs (f # fs) = file_msgs fs"

text \<open>
  For the consumer: a partition is wanted when it is an index of the EOF table and the
  one asked for, if one was asked for (only wanted partitions are started, so only they
  deliver messages); the EOF table that marks exactly the partitions of a set; the
  partitions for which a list of messages holds an EOF marker; its messages proper; the
  \<open>rd_kafka_offset_store\<close> calls that processing every message of a list makes; and the
  shortest prefix of a list that holds a given number of messages proper.
\<close>

definition wanted :: "conf \<Rightarrow> nat \<Rightarrow> int \<Rightarrow> bool" where
  "wanted cf n p =
     (0 \<le> p \<and> p < int n \<and> (partition_c cf = RD_KAFKA_PARTITION_UA \<or> p = partition_c cf))"

definition eof_table :: "nat \<Rightarrow> int set \<Rightarrow> int list" where
  "eof_table n obs = map (\<lambda>i. if int i \<in> obs then 1 else 0) [0..<n]"

definition eof_partitions :: "rkmessage list \<Rightarrow> int set" where
  "eof_partitions msgs = set (map rkm_partition (filter (\<lambda>m. rkm_err m = PARTITION_EOF) msgs))"

definition data_msgs :: "rkmessage list \<Rightarrow> rkmessage list" where
  "data_msgs msgs = filter (\<lambda>m. rkm_err m = NO_ERROR) msgs"

definition offset_stores :: "rkmessage list \<Rightarrow> (int \<times> int) list" where
  "offset_stores msgs =
     map (\<lambda>m. (rkm_partition m,
               if rkm_err m = PARTITION_EOF
               then (if rkm_offset m = 0 then 0 else rkm_offset m - 1)
               else rkm_offset m)) msgs"

fun upto_count :: "nat \<Rightarrow> rkmessage list \<Rightarrow> rkmessage list" where
  "upto_count 0 msgs = []"
| "upto_count (Suc k) [] = []"
| "upto_count (Suc k) (m # ms) =
     m # upto_count (if rkm_err m = NO_ERROR then k else Suc k) ms"

text \<open>
  The state of the EOF bookkeeping when \<open>obs\<close> is the set of partitions observed at EOF.
\<close>

definition eof_inv :: "conf \<Rightarrow> nat \<Rightarrow> int set \<Rightarrow> state \<Rightarrow> bool" where
  "eof_inv cf n obs s =
     (part_eof s = Some (eof_table n obs) \<and> part_eof_cnt s = int (card obs)
      \<and> (\<forall>p \<in> obs. wanted cf n p)
      \<and> part_eof_thres s = (if partition_c cf \<noteq> RD_KAFKA_PARTITION_UA then 1 else int n)
      \<and> (run s \<longleftrightarrow> int (card obs) < part_eof_thres s))"

section \<open>Properties of the delimiter parser\<close>

text \<open>
  C9 (as stated, refuted): the claim says that the delimiter parser fails on an empty
  specification string and returns no byte value. On the empty string the code takes the
  last branch, reads the terminating NUL and returns the byte value 0.
\<close>

theorem parse_delim_empty_returns_counterexample:
  "parse_delim [] = 0"
  by (simp add: parse_delim_def)

lemma and_0xff_range: "0 \<le> (k::int) AND 0xff \<and> k AND 0xff \<le> 255"
proof
  show "0 \<le> k AND 0xff" by simp
  show "k AND 0xff \<le> 255" by (rule AND_upper2) simp
qed

text \<open>
  C9 (amended): the delimiter parser has no failure case. Every specification string,
  the empty one included, yields a byte value between 0 and 255, and the empty string
  yields the NUL byte 0.
\<close>

theorem parse_delim_total_byte:
  "parse_delim [] = 0 \<and> 0 \<le> parse_delim str \<and> parse_delim str \<le> 255"
proof -
  have w: "uint (w AND 0xff) \<le> 255" for w :: "64 word"
  proof -
    have "w AND 0xff \<le> 0xff" by (rule word_and_le1)
    then show ?thesis by (simp add: word_le_def)
  qed
  show ?thesis
    using and_0xff_range w
    by (auto simp: parse_delim_def split: list.splits)
qed

section \<open>What polling and the send loop leave unchanged\<close>

lemma dispatch_keeps:
  "dispatch e s = Inr s' \<Longrightarrow>
     sbuf s' = sbuf s \<and> size_c s' = size_c s \<and> allocs s' = allocs s
     \<and> owned_by_client s' = owned_by_client s \<and> run s' = run s \<and> run_reads s' = run_reads s
     \<and> produced s' = produced s \<and> tx s' = tx s \<and> tx_err_q s' = tx_err_q s
     \<and> attempts s' = attempts s \<and> tee_out s' = tee_out s \<and> exitcode s' = exitcode s
     \<and> polled s' = polled s \<and> rendered s' = rendered s \<and> stored s' = stored s
     \<and> rx s' = rx s \<and> part_eof s' = part_eof s \<and> part_eof_cnt s' = part_eof_cnt s
     \<and> part_eof_thres s' = part_eof_thres s \<and> stopped s' = stopped s"
  by (cases e) (auto simp: dr_msg_cb_def error_cb_def split: if_splits)

lemma dispatch_all_keeps:
  "dispatch_all es s = Inr s' \<Longrightarrow>
     sbuf s' = sbuf s \<and> size_c s' = size_c s \<and> allocs s' = allocs s
     \<and> owned_by_client s' = owned_by_client s \<and> run s' = run s \<and> run_reads s' = run_reads s
     \<and> produced s' = produced s \<and> tx s' = tx s \<and> tx_err_q s' = tx_err_q s
     \<and> attempts s' = attempts s \<and> tee_out s' = tee_out s \<and> exitcode s' = exitcode s
     \<and> polled s' = polled s \<and> rendered s' = rendered s \<and> stored s' = stored s
     \<and> rx s' = rx s \<and> part_eof s' = part_eof s \<and> part_eof_cnt s' = part_eof_cnt s
     \<and> part_eof_thres s' = part_eof_thres s \<and> stopped s' = stopped s"
proof (induction es arbitrary: s)
  case Nil
  then show ?case by simp
next
  case (Cons e es)
  then obtain s1 where d: "dispatch e s = Inr s1" and r: "dispatch_all es s1 = Inr s'"
    by (auto split: sum.splits)
  from dispatch_keeps [OF d] Cons.IH [OF r] show ?case by simp
qed

lemma rd_kafka_poll_keeps:
  "rd_kafka_poll t es s = Inr s' \<Longrightarrow>
     sbuf s' = sbuf s \<and> size_c s' = size_c s \<and> allocs s' = allocs s
     \<and> owned_by_client s' = owned_by_client s \<and> run s' = run s \<and> run_reads s' = run_reads s
     \<and> produced s' = produced s \<and> tx s' = tx s \<and> tx_err_q s' = tx_err_q s
     \<and> attempts s' = attempts s \<and> tee_out s' = tee_out s \<and> exitcode s' = exitcode s
     \<and> polled s' = polled s @ [t] \<and> rendered s' = rendered s \<and> stored s' = stored s
     \<and> rx s' = rx s \<and> part_eof s' = part_eof s \<and> part_eof_cnt s' = part_eof_cnt s
     \<and> part_eof_thres s' = part_eof_thres s \<and> stopped s' = stopped s"
  unfolding rd_kafka_poll_def by (drule dispatch_all_keeps) simp


section \<open>Copy or ownership transfer\<close>



section \<open>Key extraction\<close>

lemma takeWhile_shorter_iff:
  "(length (takeWhile P xs) < length xs) = (\<exists>x \<in> set xs. \<not> P x)"
  by (induction xs) auto

lemma memchr_first:
  "memchr buf c n = (if word_of_int c \<in> set (take n buf)
                     then Some (length (takeWhile (\<lambda>b. b \<noteq> word_of_int c) (take n buf)))
                     else None)"
  unfolding memchr_def Let_def takeWhile_shorter_iff by auto

lemma take_takeWhile_length: "take (length (takeWhile P xs)) xs = takeWhile P xs"
  by (induction xs) auto

lemma drop_Suc_takeWhile_length: "drop (Suc (length (takeWhile P xs))) xs = tl (dropWhile P xs)"
  by (induction xs) auto

lemma frame_record_shaved:
  "frame_record cf buf = Some m \<Longrightarrow>
     buf \<noteq> [] \<and> 0 < shave cf buf (length buf) \<and> shave cf buf (length buf) \<le> length buf
     \<and> m = ownership cf (extract_key cf buf (shave cf buf (length buf)))"
  by (auto simp: frame_record_def Let_def shave_def split: if_splits)

text \<open>
  C3 (as stated, refuted): with key delimiter \<open>:\<close> and the null flag on, the record \<open>:v\<close>
  contains the key delimiter, and the bytes before its first occurrence are the empty
  byte string; the key handed to the send call is \<open>NULL\<close>, the same as for a record
  without any key delimiter, not the empty byte string.
\<close>

theorem key_before_delimiter_counterexample:
  "frame_record (conf_init\<lparr>flags := {CONF_F_KEY_DELIM, CONF_F_NULL}, key_delim := 0x3A\<rparr>)
     [0x3A, 0x76, 0x0A]
   = Some \<lparr>m_buf = Some [0x76], m_len = 1, m_key = None, m_key_len = 0,
           m_flags = RD_KAFKA_MSG_F_COPY\<rparr>"
  by (simp add: frame_record_def Let_def conf_init_def shave_def char_to_int_def
        extract_key_def memchr_def ownership_def RD_KAFKA_MSG_F_COPY_def)

text \<open>
  C3 (amended). In stream mode with a key delimiter \<open>K\<close> configured, let the record be
  the buffer after the delimiter is shaved off. If the record contains \<open>K\<close>, the key
  length is the number of bytes before the first \<open>K\<close> and the value length the number of
  bytes after it; the key is the bytes strictly before the first \<open>K\<close> and the value the
  bytes strictly after it, except that with the null flag on a half of length zero is
  passed as \<open>NULL\<close>. If the record does not contain \<open>K\<close>, the key is \<open>NULL\<close> with
  length 0 and the value is the whole record.
\<close>

theorem key_split_halves:
  assumes kd: "CONF_F_KEY_DELIM \<in> flags cf"
    and fr: "frame_record cf buf = Some m"
  shows "(word_of_int (key_delim cf) \<in> set (take (shave cf buf (length buf)) buf) \<longrightarrow>
            m_key_len m = length (takeWhile (\<lambda>b. b \<noteq> word_of_int (key_delim cf))
                                   (take (shave cf buf (length buf)) buf))
          \<and> m_len m = length (tl (dropWhile (\<lambda>b. b \<noteq> word_of_int (key_delim cf))
                                   (take (shave cf buf (length buf)) buf)))
          \<and> m_key m = (if CONF_F_NULL \<in> flags cf \<and> m_key_len m = 0 then None
                       else Some (takeWhile (\<lambda>b. b \<noteq> word_of_int (key_delim cf))
                                   (take (shave cf buf (length buf)) buf)))
          \<and> m_buf m = (if CONF_F_NULL \<in> flags cf \<and> m_len m = 0 then None
                       else Some (tl (dropWhile (\<lambda>b. b \<noteq> word_of_int (key_delim cf))
                                   (take (shave cf buf (length buf)) buf)))))
       \<and> (word_of_int (key_delim cf) \<notin> set (take (shave cf buf (length buf)) buf) \<longrightarrow>
            m_key m = None \<and> m_key_len m = 0
          \<and> m_buf m = Some (take (shave cf buf (length buf)) buf)
          \<and> m_len m = length (take (shave cf buf (length buf)) buf))"
proof -
  define n where "n = shave cf buf (length buf)"
  define rc where "rc = take n buf"
  define P where "P = (\<lambda>b::byte. b \<noteq> word_of_int (key_delim cf))"
  define k where "k = length (takeWhile P rc)"
  from frame_record_shaved [OF fr] have n: "0 < n" "n \<le> length buf"
    and m: "m = ownership cf (extract_key cf buf n)"
    by (simp_all add: n_def)
  have len_rc: "length rc = n"
    using n by (simp add: rc_def)
  have mc: "memchr buf (key_delim cf) n = (if word_of_int (key_delim cf) \<in> set rc then Some k else None)"
    by (simp add: memchr_first rc_def k_def P_def)
  have own: "m_key (ownership cf x) = m_key x \<and> m_key_len (ownership cf x) = m_key_len x
      \<and> m_buf (ownership cf x) = m_buf x \<and> m_len (ownership cf x) = m_len x" for x
    by (simp add: ownership_def)
  have absent: "m_key m = None \<and> m_key_len m = 0 \<and> m_buf m = Some rc \<and> m_len m = length rc"
    if "word_of_int (key_delim cf) \<notin> set rc"
    using that mc kd n by (simp add: m own extract_key_def rc_def min_def)
  define ky where "ky = takeWhile P rc"
  define vl where "vl = tl (dropWhile P rc)"
  have found: "m_key_len m = length ky \<and> m_len m = length vl
      \<and> m_key m = (if CONF_F_NULL \<in> flags cf \<and> m_key_len m = 0 then None else Some ky)
      \<and> m_buf m = (if CONF_F_NULL \<in> flags cf \<and> m_len m = 0 then None else Some vl)"
    if "word_of_int (key_delim cf) \<in> set rc"
  proof -
    have klen: "length ky = k"
      by (simp add: k_def ky_def)
    have kn: "k < n"
    proof -
      from that have "\<exists>x \<in> set rc. \<not> P x"
        by (auto simp: P_def)
      then have "length (takeWhile P rc) < length rc"
        by (simp only: takeWhile_shorter_iff)
      with len_rc show ?thesis
        by (simp add: k_def)
    qed
    have key: "take k buf = ky"
    proof -
      have "take k rc = ky"
        by (simp add: k_def ky_def take_takeWhile_length)
      moreover have "take k rc = take k buf"
        using kn by (simp add: rc_def min_def)
      ultimately show ?thesis by simp
    qed
    have vd: "vl = drop (Suc k) rc"
      by (simp add: k_def vl_def drop_Suc_takeWhile_length)
    have val: "take (n - Suc k) (drop (Suc k) buf) = vl"
      by (simp add: vd rc_def drop_take)
    have vlen: "length vl = n - Suc k"
      by (simp add: vd len_rc)
    from that mc kd have "extract_key cf buf n =
        \<lparr>m_buf = (if CONF_F_NULL \<in> flags cf \<and> n - Suc k = 0 then None
                  else Some (take (n - Suc k) (drop (Suc k) buf))),
         m_len = n - Suc k,
         m_key = (if CONF_F_NULL \<in> flags cf \<and> k = 0 then None else Some (take k buf)),
         m_key_len = k, m_flags = 0 OR RD_KAFKA_MSG_F_COPY\<rparr>"
      by (simp add: extract_key_def Let_def)
    then have ek: "extract_key cf buf n =
        \<lparr>m_buf = (if CONF_F_NULL \<in> flags cf \<and> n - Suc k = 0 then None else Some vl),
         m_len = n - Suc k,
         m_key = (if CONF_F_NULL \<in> flags cf \<and> k = 0 then None else Some ky),
         m_key_len = k, m_flags = 0 OR RD_KAFKA_MSG_F_COPY\<rparr>"
      unfolding key val .
    show ?thesis
      by (simp add: m own ek klen vlen)
  qed
  from absent found show ?thesis
    unfolding ky_def vl_def rc_def n_def P_def by blast
qed

text \<open>
  The split at \<open>key:value\<close> followed by a newline, with key delimiter \<open>:\<close>, and at
  \<open>value\<close> followed by a newline.
\<close>

theorem key_split_halves_witness:
  "m_key (the (frame_record (conf_init\<lparr>flags := {CONF_F_KEY_DELIM}, key_delim := 0x3A\<rparr>)
                 [0x6B, 0x65, 0x79, 0x3A, 0x76, 0x61, 0x6C, 0x75, 0x65, 0x0A]))
     = Some [0x6B, 0x65, 0x79]
   \<and> m_buf (the (frame_record (conf_init\<lparr>flags := {CONF_F_KEY_DELIM}, key_delim := 0x3A\<rparr>)
                 [0x6B, 0x65, 0x79, 0x3A, 0x76, 0x61, 0x6C, 0x75, 0x65, 0x0A]))
     = Some [0x76, 0x61, 0x6C, 0x75, 0x65]
   \<and> m_key (the (frame_record (conf_init\<lparr>flags := {CONF_F_KEY_DELIM}, key_delim := 0x3A\<rparr>)
                 [0x76, 0x61, 0x6C, 0x75, 0x65, 0x0A]))
     = None
   \<and> m_buf (the (frame_record (conf_init\<lparr>flags := {CONF_F_KEY_DELIM}, key_delim := 0x3A\<rparr>)
                 [0x76, 0x61, 0x6C, 0x75, 0x65, 0x0A]))
     = Some [0x76, 0x61, 0x6C, 0x75, 0x65]"
proof -
  let ?cK = "conf_init\<lparr>flags := {CONF_F_KEY_DELIM}, key_delim := 0x3A\<rparr>"
  let ?kv = "[0x6B, 0x65, 0x79, 0x3A, 0x76, 0x61, 0x6C, 0x75, 0x65, 0x0A::byte]"
  let ?v = "[0x76, 0x61, 0x6C, 0x75, 0x65, 0x0A::byte]"
  have kd: "CONF_F_KEY_DELIM \<in> flags ?cK" and nz: "CONF_F_NULL \<notin> flags ?cK"
    and K: "key_delim ?cK = 0x3A"
    by (simp_all add: conf_init_def)
  have s1: "shave ?cK ?kv (length ?kv) = 9" and s2: "shave ?cK ?v (length ?v) = 5"
    by (simp_all add: shave_def conf_init_def char_to_int_def)
  have f1: "frame_record ?cK ?kv = Some (the (frame_record ?cK ?kv))"
    and f2: "frame_record ?cK ?v = Some (the (frame_record ?cK ?v))"
    using s1 s2 by (simp_all add: frame_record_def Let_def)
  from key_split_halves [OF kd f1, unfolded s1 K] key_split_halves [OF kd f2, unfolded s2 K] nz
  show ?thesis
    by simp
qed

section \<open>The null flag\<close>



section \<open>The send loop\<close>

lemma dispatch_all_total:
  "Err_all_brokers_down \<notin> set es \<Longrightarrow> \<exists>s'. dispatch_all es s = Inr s'"
proof (induction es arbitrary: s)
  case Nil
  then show ?case by simp
next
  case (Cons e es)
  then show ?case
    by (cases e) (auto simp: error_cb_def)
qed

lemma rd_kafka_poll_total:
  "Err_all_brokers_down \<notin> set es \<Longrightarrow> \<exists>s'. rd_kafka_poll t es s = Inr s'"
  unfolding rd_kafka_poll_def by (rule dispatch_all_total)

lemma produce_loop_retry:
  assumes "run s"
    and "\<forall>a \<in> set qs. a_result a = Queue_full \<and> Err_all_brokers_down \<notin> set (a_events a)"
    and "\<forall>i < length qs. \<not> w_signal w (run_reads s + i)"
  shows "\<exists>s1. produce_loop w m (qs @ rest) s = produce_loop w m rest s1
          \<and> run s1 \<and> run_reads s1 = run_reads s + length qs
          \<and> tx s1 = tx s \<and> tx_err_q s1 = tx_err_q s + of_nat (length qs)
          \<and> produced s1 = produced s
          \<and> polled s1 = polled s @ replicate (length qs) 5"
  using assms
proof (induction qs arbitrary: s)
  case Nil
  then show ?case by auto
next
  case (Cons a qs)
  let ?s1 = "read_run w s"
  let ?s2 = "?s1\<lparr>tx_err_q := tx_err_q ?s1 + 1, attempts := qs @ rest\<rparr>"
  from Cons.prems have a: "a_result a = Queue_full" "Err_all_brokers_down \<notin> set (a_events a)"
    and sig0: "\<not> w_signal w (run_reads s)"
    by auto
  from Cons.prems(1) sig0 have r1: "run ?s1"
    by (simp add: read_run_def)
  from rd_kafka_poll_total [OF a(2)] obtain s3 where p: "rd_kafka_poll 5 (a_events a) ?s2 = Inr s3"
    by blast
  note k = rd_kafka_poll_keeps [OF p]
  from k r1 have r3: "run s3" by simp
  from k have rr: "run_reads s3 = Suc (run_reads s)"
    by (simp add: read_run_def)
  have q3: "\<forall>a \<in> set qs. a_result a = Queue_full \<and> Err_all_brokers_down \<notin> set (a_events a)"
    using Cons.prems(2) by simp
  have s3: "\<forall>i < length qs. \<not> w_signal w (run_reads s3 + i)"
  proof (intro allI impI)
    fix i assume "i < length qs"
    then have "Suc i < length (a # qs)" by simp
    with Cons.prems(3) have "\<not> w_signal w (run_reads s + Suc i)" by blast
    then show "\<not> w_signal w (run_reads s3 + i)" by (simp add: rr)
  qed
  from Cons.IH [OF r3 q3 s3] obtain s4 where
    ih: "produce_loop w m (qs @ rest) s3 = produce_loop w m rest s4"
      "run s4" "run_reads s4 = run_reads s3 + length qs" "tx s4 = tx s3"
      "tx_err_q s4 = tx_err_q s3 + of_nat (length qs)" "produced s4 = produced s3"
      "polled s4 = polled s3 @ replicate (length qs) 5"
    by blast
  have step: "produce_loop w m ((a # qs) @ rest) s = produce_loop w m (qs @ rest) s3"
    using r1 a(1) p by (simp add: Let_def)
  from k have "tx s3 = tx s" "tx_err_q s3 = tx_err_q s + 1" "produced s3 = produced s"
    "polled s3 = polled s @ [5]"
    by (simp_all add: read_run_def)
  with step ih rr show ?case
    by (intro exI [of _ s4]) (simp add: replicate_append_same)
qed

lemma produce_loop_returned:
  "produce_loop w m atts s = Some (Inr s') \<Longrightarrow>
     produced s' = produced s @ [m] \<and> tx s' = tx s + 1
     \<and> (\<exists>k < length atts. a_result (atts ! k) = Enqueued
            \<and> (\<forall>i < k. a_result (atts ! i) = Queue_full))"
proof (induction atts arbitrary: s)
  case Nil
  then show ?case by simp
next
  case (Cons a atts)
  show ?case
  proof (cases "a_result a")
    case Enqueued
    with Cons.prems have "produced s' = produced s @ [m] \<and> tx s' = tx s + 1"
      by (auto simp: Let_def read_run_def split: if_splits sum.splits dest!: rd_kafka_poll_keeps)
    moreover from Enqueued have "\<exists>k < length (a # atts). a_result ((a # atts) ! k) = Enqueued
            \<and> (\<forall>i < k. a_result ((a # atts) ! i) = Queue_full)"
      by (intro exI [of _ 0]) simp
    ultimately show ?thesis by blast
  next
    case Queue_full
    with Cons.prems obtain s2 where
      p: "rd_kafka_poll 5 (a_events a)
            (read_run w s\<lparr>tx_err_q := tx_err_q (read_run w s) + 1, attempts := atts\<rparr>) = Inr s2"
      and l: "produce_loop w m atts s2 = Some (Inr s')"
      by (auto simp: Let_def split: if_splits sum.splits)
    from Cons.IH [OF l] obtain k where k: "k < length atts" "a_result (atts ! k) = Enqueued"
      "\<forall>i < k. a_result (atts ! i) = Queue_full"
      and pr: "produced s' = produced s2 @ [m]" "tx s' = tx s2 + 1"
      by blast
    have "\<forall>i < Suc k. a_result ((a # atts) ! i) = Queue_full"
      using k(3) Queue_full by (auto simp: nth_Cons split: nat.splits)
    with k have "\<exists>k < length (a # atts). a_result ((a # atts) ! k) = Enqueued
            \<and> (\<forall>i < k. a_result ((a # atts) ! i) = Queue_full)"
      by (intro exI [of _ "Suc k"]) simp
    moreover from rd_kafka_poll_keeps [OF p] pr
    have "produced s' = produced s @ [m] \<and> tx s' = tx s + 1"
      by (simp add: read_run_def)
    ultimately show ?thesis by blast
  next
    case (Produce_error e)
    with Cons.prems show ?thesis
      by (auto simp: Let_def split: if_splits)
  qed
qed

text \<open>
  C6. The send operation returns normally only when the broker client has accepted the
  record: whenever \<open>produce\<close> returns, the record has been appended to the accepted
  messages, \<open>stats.tx\<close> has grown by one, and every earlier attempt was answered with
  ``queue full''. After any number of ``queue full'' answers, with the run flag still set
  and no fatal error event, each followed by a poll with the 5 ms timeout: the operation
  has not returned and is still retrying (there is no bound on the attempts); if the next
  attempt is accepted it returns, with one queue-full count per retry; if a termination
  signal has cleared the run flag the process ends with a fatal error; and if the next
  attempt gives any other error the process ends with a fatal error at once.
\<close>

theorem produce_retry_policy:
  assumes run: "run s"
    and qf: "\<forall>a \<in> set qs. a_result a = Queue_full \<and> Err_all_brokers_down \<notin> set (a_events a)"
    and ns: "\<forall>i < length qs. \<not> w_signal w (run_reads s + i)"
  shows "(produce w m t = Some (Inr t') \<longrightarrow>
            produced t' = produced t @ [m] \<and> tx t' = tx t + 1
          \<and> (\<exists>k < length (attempts t). a_result (attempts t ! k) = Enqueued
                \<and> (\<forall>i < k. a_result (attempts t ! i) = Queue_full)))
       \<and> produce w m (s\<lparr>attempts := qs\<rparr>) = None
       \<and> (\<not> w_signal w (run_reads s + length qs) \<and> a_result a = Enqueued
            \<and> Err_all_brokers_down \<notin> set (a_events a) \<longrightarrow>
          (\<exists>s'. produce w m (s\<lparr>attempts := qs @ a # rest\<rparr>) = Some (Inr s')
               \<and> produced s' = produced s @ [m] \<and> tx s' = tx s + 1
               \<and> tx_err_q s' = tx_err_q s + of_nat (length qs)
               \<and> polled s' = polled s @ replicate (length qs) 5 @ [0]
               \<and> attempts s' = rest))
       \<and> (w_signal w (run_reads s + length qs) \<longrightarrow>
            produce w m (s\<lparr>attempts := qs @ a # rest\<rparr>)
              = Some (Inl (Terminated_while_producing (m_len m))))
       \<and> (\<not> w_signal w (run_reads s + length qs) \<and> a_result a = Produce_error e \<longrightarrow>
            produce w m (s\<lparr>attempts := qs @ a # rest\<rparr>)
              = Some (Inl (Failed_to_produce (m_len m) e)))"
proof -
  have ret: "produced t' = produced t @ [m] \<and> tx t' = tx t + 1
          \<and> (\<exists>k < length (attempts t). a_result (attempts t ! k) = Enqueued
                \<and> (\<forall>i < k. a_result (attempts t ! i) = Queue_full))"
    if "produce w m t = Some (Inr t')"
    using that unfolding produce_def by (rule produce_loop_returned)
  have pre: "\<exists>s1. produce w m (s\<lparr>attempts := qs @ rest'\<rparr>) = produce_loop w m rest' s1
          \<and> run s1 \<and> run_reads s1 = run_reads s + length qs
          \<and> tx s1 = tx s \<and> tx_err_q s1 = tx_err_q s + of_nat (length qs)
          \<and> produced s1 = produced s
          \<and> polled s1 = polled s @ replicate (length qs) 5" for rest'
    using produce_loop_retry [of "s\<lparr>attempts := qs @ rest'\<rparr>" qs w m rest'] run qf ns
    by (simp add: produce_def)
  have none: "produce w m (s\<lparr>attempts := qs\<rparr>) = None"
    using pre [of "[]"] by auto
  from pre [of "a # rest"] obtain s1 where
    s1: "produce w m (s\<lparr>attempts := qs @ a # rest\<rparr>) = produce_loop w m (a # rest) s1"
      "run s1" "run_reads s1 = run_reads s + length qs" "tx s1 = tx s"
      "tx_err_q s1 = tx_err_q s + of_nat (length qs)" "produced s1 = produced s"
      "polled s1 = polled s @ replicate (length qs) 5"
    by blast
  have acc: "\<exists>s'. produce w m (s\<lparr>attempts := qs @ a # rest\<rparr>) = Some (Inr s')
               \<and> produced s' = produced s @ [m] \<and> tx s' = tx s + 1
               \<and> tx_err_q s' = tx_err_q s + of_nat (length qs)
               \<and> polled s' = polled s @ replicate (length qs) 5 @ [0]
               \<and> attempts s' = rest"
    if "\<not> w_signal w (run_reads s + length qs)" "a_result a = Enqueued"
      "Err_all_brokers_down \<notin> set (a_events a)"
  proof -
    let ?r = "read_run w s1"
    let ?s2 = "?r\<lparr>tx := tx ?r + 1, produced := produced ?r @ [m], attempts := rest\<rparr>"
    from rd_kafka_poll_total [OF that(3)] obtain s3 where
      p: "rd_kafka_poll 0 (a_events a) ?s2 = Inr s3"
      by blast
    from that(1) s1(2,3) have "run ?r"
      by (simp add: read_run_def)
    with that(2) p have "produce_loop w m (a # rest) s1 = Some (Inr s3)"
      by (simp add: Let_def)
    with rd_kafka_poll_keeps [OF p] s1 show ?thesis
      by (intro exI [of _ s3]) (simp add: read_run_def)
  qed
  have cancel: "produce w m (s\<lparr>attempts := qs @ a # rest\<rparr>)
              = Some (Inl (Terminated_while_producing (m_len m)))"
    if "w_signal w (run_reads s + length qs)"
    using that s1 by (simp add: Let_def read_run_def)
  have other: "produce w m (s\<lparr>attempts := qs @ a # rest\<rparr>)
              = Some (Inl (Failed_to_produce (m_len m) e))"
    if "\<not> w_signal w (run_reads s + length qs)" "a_result a = Produce_error e"
    using that s1 by (simp add: Let_def read_run_def)
  from ret none acc cancel other show ?thesis
    by blast
qed

text \<open>
  Two ``queue full'' answers: alone (still retrying), followed by an acceptance (returns,
  with polls of 5, 5 and 0 ms), with a signal before the third attempt (fatal), and
  followed by another error (fatal).
\<close>

theorem produce_retry_policy_witness:
  "produce quiet \<lparr>m_buf = Some [0x61], m_len = 1, m_key = None, m_key_len = 0, m_flags = 2\<rparr>
     (state_init [\<lparr>a_result = Queue_full, a_events = []\<rparr>, \<lparr>a_result = Queue_full, a_events = []\<rparr>])
     = None
   \<and> (\<exists>s'. produce quiet \<lparr>m_buf = Some [0x61], m_len = 1, m_key = None, m_key_len = 0, m_flags = 2\<rparr>
          (state_init [\<lparr>a_result = Queue_full, a_events = []\<rparr>,
                       \<lparr>a_result = Queue_full, a_events = []\<rparr>, accepted]) = Some (Inr s')
        \<and> produced s' = [\<lparr>m_buf = Some [0x61], m_len = 1, m_key = None, m_key_len = 0, m_flags = 2\<rparr>]
        \<and> tx s' = 1 \<and> tx_err_q s' = 2 \<and> polled s' = [5, 5, 0])
   \<and> produce (quiet\<lparr>w_signal := (\<lambda>k. k = 2)\<rparr>)
        \<lparr>m_buf = Some [0x61], m_len = 1, m_key = None, m_key_len = 0, m_flags = 2\<rparr>
        (state_init [\<lparr>a_result = Queue_full, a_events = []\<rparr>,
                     \<lparr>a_result = Queue_full, a_events = []\<rparr>, accepted])
     = Some (Inl (Terminated_while_producing 1))
   \<and> produce quiet \<lparr>m_buf = Some [0x61], m_len = 1, m_key = None, m_key_len = 0, m_flags = 2\<rparr>
        (state_init [\<lparr>a_result = Queue_full, a_events = []\<rparr>,
                     \<lparr>a_result = Queue_full, a_events = []\<rparr>,
                     \<lparr>a_result = Produce_error 7, a_events = []\<rparr>])
     = Some (Inl (Failed_to_produce 1 7))"
proof -
  let ?m = "\<lparr>m_buf = Some [0x61::byte], m_len = 1, m_key = None, m_key_len = 0, m_flags = 2\<rparr>"
  let ?f = "\<lparr>a_result = Queue_full, a_events = []\<rparr>"
  let ?e = "\<lparr>a_result = Produce_error 7, a_events = []\<rparr>"
  let ?sig = "quiet\<lparr>w_signal := (\<lambda>k. k = 2)\<rparr>"
  have run: "run (state_init [])"
    by (simp add: state_init_def)
  have qf: "\<forall>a \<in> set [?f, ?f]. a_result a = Queue_full \<and> Err_all_brokers_down \<notin> set (a_events a)"
    by simp
  have nq: "\<forall>i < length [?f, ?f]. \<not> w_signal quiet (run_reads (state_init []) + i)"
    by (simp add: quiet_def)
  have ns: "\<forall>i < length [?f, ?f]. \<not> w_signal ?sig (run_reads (state_init []) + i)"
    by (simp add: state_init_def)
  have st: "(state_init [])\<lparr>attempts := x\<rparr> = state_init x" for x
    by (simp add: state_init_def)
  have q2: "\<not> w_signal quiet (run_reads (state_init []) + length [?f, ?f])"
    by (simp add: quiet_def)
  have s2: "w_signal ?sig (run_reads (state_init []) + length [?f, ?f])"
    by (simp add: state_init_def)
  have ac: "a_result accepted = Enqueued \<and> Err_all_brokers_down \<notin> set (a_events accepted)"
    by (simp add: accepted_def)
  note T = produce_retry_policy [OF run qf nq, of ?m _ _ accepted "[]" 7, unfolded st]
  from T have A1: "produce quiet ?m (state_init [?f, ?f]) = None"
    by blast
  from T q2 ac obtain s' where
    s': "produce quiet ?m (state_init ([?f, ?f] @ accepted # [])) = Some (Inr s')"
      "produced s' = produced (state_init []) @ [?m]" "tx s' = tx (state_init []) + 1"
      "tx_err_q s' = tx_err_q (state_init []) + of_nat (length [?f, ?f])"
      "polled s' = polled (state_init []) @ replicate (length [?f, ?f]) 5 @ [0]"
    by blast
  have A2: "\<exists>s'. produce quiet ?m (state_init [?f, ?f, accepted]) = Some (Inr s')
           \<and> produced s' = [?m] \<and> tx s' = 1 \<and> tx_err_q s' = 2 \<and> polled s' = [5, 5, 0]"
    using s' by (intro exI [of _ s']) (simp add: state_init_def numeral_2_eq_2)
  from produce_retry_policy [OF run qf ns, of ?m _ _ accepted "[]" 7, unfolded st] s2
  have B: "produce ?sig ?m (state_init [?f, ?f, accepted])
      = Some (Inl (Terminated_while_producing 1))"
    by simp
  from produce_retry_policy [OF run qf nq, of ?m _ _ ?e "[]" 7, unfolded st] q2
  have C: "produce quiet ?m (state_init [?f, ?f, ?e]) = Some (Inl (Failed_to_produce 1 7))"
    by simp
  from A1 A2 B C show ?thesis by blast
qed

section \<open>Framing the whole input\<close>








lemma limit_step:
  fixes c t :: "64 word"
  assumes "Suc n \<le> unat (c - t - 1)"
  shows "t + 1 \<noteq> c" and "n \<le> unat (c - (t + 1) - 1)"
proof -
  let ?x = "c - t - 1"
  from assms have x: "?x \<noteq> 0"
    by auto
  then show "t + 1 \<noteq> c" by auto
  have "c - (t + 1) - 1 = ?x - 1" by simp
  moreover from x have "unat (?x - 1) = unat ?x - 1"
    by (rule unat_minus_one)
  ultimately show "n \<le> unat (c - (t + 1) - 1)"
    using assms by simp
qed

lemma dispatch_all_dr:
  "Delivery_failed \<notin> set es \<Longrightarrow> dispatch_all es s = Inr s' \<Longrightarrow> tx_err_dr s' = tx_err_dr s"
proof (induction es arbitrary: s)
  case Nil
  then show ?case by simp
next
  case (Cons e es)
  then show ?case
    by (cases e) (auto simp: dr_msg_cb_def error_cb_def split: if_splits)
qed

lemma produce_at_once:
  assumes "run s" and "\<not> w_signal w (run_reads s)" and "attempts s = a # as"
    and "a_result a = Enqueued" and "Err_all_brokers_down \<notin> set (a_events a)"
  shows "\<exists>s'. produce w m s = Some (Inr s') \<and> run s' \<and> run_reads s' = Suc (run_reads s)
          \<and> produced s' = produced s @ [m] \<and> tx s' = tx s + 1 \<and> attempts s' = as
          \<and> tee_out s' = tee_out s \<and> tx_err_q s' = tx_err_q s \<and> exitcode s' = exitcode s
          \<and> (Delivery_failed \<notin> set (a_events a) \<longrightarrow> tx_err_dr s' = tx_err_dr s)"
proof -
  let ?r = "read_run w s"
  let ?s2 = "?r\<lparr>tx := tx ?r + 1, produced := produced ?r @ [m], attempts := as\<rparr>"
  from rd_kafka_poll_total [OF assms(5)] obtain s3 where
    p: "rd_kafka_poll 0 (a_events a) ?s2 = Inr s3"
    by blast
  from assms(1,2) have "run ?r"
    by (simp add: read_run_def)
  with assms(3,4) p have "produce w m s = Some (Inr s3)"
    by (simp add: produce_def Let_def)
  moreover from p have "Delivery_failed \<notin> set (a_events a) \<longrightarrow> tx_err_dr s3 = tx_err_dr s"
    by (auto simp: rd_kafka_poll_def read_run_def dest!: dispatch_all_dr)
  ultimately show ?thesis
    using rd_kafka_poll_keeps [OF p] assms(1,2)
    by (intro exI [of _ s3]) (simp add: read_run_def)
qed










section \<open>Whole-file mode and the exit code\<close>

lemma produce_files_clean:
  "run s \<Longrightarrow> \<forall>k. \<not> w_signal w k \<Longrightarrow>
   \<forall>a \<in> set (attempts s). a_result a = Enqueued \<and> Err_all_brokers_down \<notin> set (a_events a)
       \<and> Delivery_failed \<notin> set (a_events a) \<Longrightarrow>
   length (file_msgs paths) \<le> length (attempts s) \<Longrightarrow>
   \<exists>s'. produce_files w paths good s
           = Some (Inr (good + int (length (filter (\<lambda>f. \<not> file_fails f) paths)), s'))
      \<and> run s'
      \<and> produced s' = produced s @ file_msgs paths
      \<and> tx_err_q s' = tx_err_q s \<and> tx_err_dr s' = tx_err_dr s \<and> exitcode s' = exitcode s
      \<and> attempts s' = drop (length (file_msgs paths)) (attempts s)"
proof (induction paths arbitrary: good s)
  case Nil
  then show ?case by simp
next
  case (Cons f fs)
  show ?case
  proof (cases "\<exists>bs. f = Contents bs \<and> bs \<noteq> []")
    case False
    then have pf: "produce_file w f s = Some (Inr (if file_fails f then - 1 else 0, s))"
      and fm: "file_msgs (f # fs) = file_msgs fs"
      by (cases f; auto simp: produce_file_def file_fails_def)+
    from Cons.prems(4) fm have l: "length (file_msgs fs) \<le> length (attempts s)"
      by simp
    from Cons.IH [OF Cons.prems(1-3) l, of "if file_fails f then good else good + 1"] pf fm
    show ?thesis
      by (auto simp: add.assoc)
  next
    case True
    then obtain bs where f: "f = Contents bs" "bs \<noteq> []"
      by blast
    let ?m = "\<lparr>m_buf = Some bs, m_len = length bs, m_key = None, m_key_len = 0,
               m_flags = RD_KAFKA_MSG_F_COPY\<rparr>"
    from f have fm: "file_msgs (f # fs) = ?m # file_msgs fs"
      by simp
    with Cons.prems(4) obtain a as where at: "attempts s = a # as"
      by (cases "attempts s") auto
    from Cons.prems(3) at have a: "a_result a = Enqueued" "Err_all_brokers_down \<notin> set (a_events a)"
      "Delivery_failed \<notin> set (a_events a)"
      by auto
    from Cons.prems(2) have ns: "\<not> w_signal w (run_reads s)"
      by blast
    from produce_at_once [OF Cons.prems(1) ns at a(1,2), of ?m] a(3) obtain s1 where
      s1: "produce w ?m s = Some (Inr s1)" "run s1" "produced s1 = produced s @ [?m]"
        "attempts s1 = as" "tx_err_q s1 = tx_err_q s" "exitcode s1 = exitcode s"
        "tx_err_dr s1 = tx_err_dr s"
      by blast
    have pf: "produce_file w f s = Some (Inr (int (length bs), s1))"
      using f s1(1) by (simp add: produce_file_def)
    have p3: "\<forall>a \<in> set (attempts s1). a_result a = Enqueued
        \<and> Err_all_brokers_down \<notin> set (a_events a) \<and> Delivery_failed \<notin> set (a_events a)"
      using Cons.prems(3) at s1(4) by simp
    have l: "length (file_msgs fs) \<le> length (attempts s1)"
      using Cons.prems(4) fm at s1(4) by simp
    from Cons.IH [OF s1(2) Cons.prems(2) p3 l, of "good + 1"] pf fm f s1 at
    show ?thesis
      by (auto simp: file_fails_def add.assoc)
  qed
qed

lemma outq_wait_clean:
  "\<forall>k. \<not> w_signal w k \<Longrightarrow>
   \<forall>es \<in> set outq. Err_all_brokers_down \<notin> set es \<and> Delivery_failed \<notin> set es \<Longrightarrow>
   run s \<Longrightarrow>
   \<exists>s'. outq_wait w outq s = Inr s' \<and> produced s' = produced s
      \<and> tx_err_q s' = tx_err_q s \<and> tx_err_dr s' = tx_err_dr s \<and> exitcode s' = exitcode s"
proof (induction outq arbitrary: s)
  case Nil
  then show ?case by (simp add: read_run_def)
next
  case (Cons es outq)
  let ?r = "read_run w s"
  from Cons.prems have r: "run ?r"
    by (simp add: read_run_def)
  from Cons.prems(2) have e: "Err_all_brokers_down \<notin> set es" "Delivery_failed \<notin> set es"
    by auto
  from rd_kafka_poll_total [OF e(1)] obtain s2 where p: "rd_kafka_poll 50 es ?r = Inr s2"
    by blast
  from p e(2) have dr: "tx_err_dr s2 = tx_err_dr s"
    by (auto simp: rd_kafka_poll_def read_run_def dest!: dispatch_all_dr)
  from rd_kafka_poll_keeps [OF p] r have r2: "run s2"
    by simp
  have q: "\<forall>es \<in> set outq. Err_all_brokers_down \<notin> set es \<and> Delivery_failed \<notin> set es"
    using Cons.prems(2) by simp
  from Cons.IH [OF Cons.prems(1) q r2] obtain s' where
    "outq_wait w outq s2 = Inr s'" "produced s' = produced s2" "tx_err_q s' = tx_err_q s2"
    "tx_err_dr s' = tx_err_dr s2" "exitcode s' = exitcode s2"
    by blast
  with r p dr rd_kafka_poll_keeps [OF p] show ?case
    by (simp add: Let_def read_run_def)
qed

text \<open>
  C8 (as stated, refuted): of two listed files the first cannot be opened and the second
  holds one byte. The second file is sent, and the process exits with code 0, not 1.
\<close>

theorem partial_file_failure_counterexample:
  "map_option exit_status
     (producer_run conf_init quiet [] [Open_fails, Contents [0x61]] [] (state_init [accepted]))
   = Some 0"
  by (simp add: producer_run_def batch_mode_def produce_file_def produce_def conf_init_def
        quiet_def state_init_def accepted_def read_run_def rd_kafka_poll_def exit_status_def
        Let_def)

text \<open>
  C8 (amended). In whole-file mode, when no signal arrives, every send is accepted at
  once and no delivery fails: failing files are skipped and the run continues, so every
  file that is read and not empty is sent, in order; the exit code is 1 when every
  listed file fails and 0 otherwise, in particular 0 when some but not all files fail
  and 0 when no file fails.
\<close>

theorem batch_exit_code:
  assumes paths: "paths \<noteq> []" and line: "CONF_F_LINE \<notin> flags cf"
    and sg: "\<forall>k. \<not> w_signal w k"
    and run: "run s"
    and acc: "\<forall>a \<in> set (attempts s). a_result a = Enqueued
                \<and> Err_all_brokers_down \<notin> set (a_events a) \<and> Delivery_failed \<notin> set (a_events a)"
    and fuel: "length (file_msgs paths) \<le> length (attempts s)"
    and outq: "\<forall>es \<in> set outq. Err_all_brokers_down \<notin> set es \<and> Delivery_failed \<notin> set es"
    and init: "exitcode s = 0" "tx_err_q s = 0" "tx_err_dr s = 0"
  shows "\<exists>s'. producer_run cf w inp paths outq s = Some (Inr s')
          \<and> produced s' = produced s @ file_msgs paths
          \<and> exit_status (Inr s') = (if \<forall>f \<in> set paths. file_fails f then 1 else 0)"
proof -
  let ?good = "int (length (filter (\<lambda>f. \<not> file_fails f) paths))"
  from produce_files_clean [OF run sg acc fuel, of 0] obtain s1 where
    s1: "produce_files w paths 0 s = Some (Inr (?good, s1))" "run s1"
      "produced s1 = produced s @ file_msgs paths" "tx_err_q s1 = tx_err_q s"
      "tx_err_dr s1 = tx_err_dr s" "exitcode s1 = exitcode s"
    by auto
  define s2 where "s2 = (if ?good = 0 then s1\<lparr>exitcode := 1\<rparr> else s1)"
  have b: "batch_mode w paths s = Some (Inr s2)"
    using s1(1) by (simp add: batch_mode_def s2_def)
  have g0: "?good = 0 \<longleftrightarrow> (\<forall>f \<in> set paths. file_fails f)"
    by (simp add: filter_empty_conv)
  have k2: "produced s2 = produced s @ file_msgs paths" "tx_err_q s2 = 0" "tx_err_dr s2 = 0"
    "exitcode s2 = (if \<forall>f \<in> set paths. file_fails f then 1 else 0)"
    using s1 init g0 by (simp_all add: s2_def)
  have r2: "run (s2\<lparr>run := True\<rparr>)" by simp
  from outq_wait_clean [OF sg outq r2] obtain s3 where
    s3: "outq_wait w outq (s2\<lparr>run := True\<rparr>) = Inr s3" "produced s3 = produced s2"
      "tx_err_q s3 = tx_err_q s2" "tx_err_dr s3 = tx_err_dr s2" "exitcode s3 = exitcode s2"
    by auto
  have "producer_run cf w inp paths outq s = Some (Inr s3)"
    using paths line b s3 k2 by (simp add: producer_run_def)
  with s3 k2 show ?thesis
    by (intro exI [of _ s3]) (simp add: exit_status_def)
qed

text \<open>
  Three runs: one unreadable file and one readable file (exit code 0, the readable one is
  sent), two unreadable files (exit code 1), two readable files (exit code 0).
\<close>

theorem batch_exit_code_witness:
  "(\<exists>s'. producer_run conf_init quiet [] [Open_fails, Contents [0x61]] [[Delivery_ok]]
            (state_init [accepted]) = Some (Inr s')
        \<and> map m_buf (produced s') = [Some [0x61]] \<and> exit_status (Inr s') = 0)
   \<and> (\<exists>s'. producer_run conf_init quiet [] [Open_fails, Stat_fails] [] (state_init [])
            = Some (Inr s')
        \<and> produced s' = [] \<and> exit_status (Inr s') = 1)
   \<and> (\<exists>s'. producer_run conf_init quiet [] [Contents [0x61], Contents [0x62]] []
            (state_init [accepted, accepted]) = Some (Inr s')
        \<and> map m_buf (produced s') = [Some [0x61], Some [0x62]] \<and> exit_status (Inr s') = 0)"
proof -
  have line: "CONF_F_LINE \<notin> flags conf_init"
    by (simp add: conf_init_def)
  have sg: "\<forall>k. \<not> w_signal quiet k"
    by (simp add: quiet_def)
  have run: "run (state_init x)" and init: "exitcode (state_init x) = 0"
    "tx_err_q (state_init x) = 0" "tx_err_dr (state_init x) = 0" for x
    by (simp_all add: state_init_def)
  have acc: "\<forall>a \<in> set (attempts (state_init (replicate n accepted))). a_result a = Enqueued
      \<and> Err_all_brokers_down \<notin> set (a_events a) \<and> Delivery_failed \<notin> set (a_events a)" for n
    by (simp add: state_init_def accepted_def)
  have o1: "\<forall>es \<in> set [[Delivery_ok]]. Err_all_brokers_down \<notin> set es \<and> Delivery_failed \<notin> set es"
    and o0: "\<forall>es \<in> set ([] :: event list list). Err_all_brokers_down \<notin> set es \<and> Delivery_failed \<notin> set es"
    by simp_all
  have r1: "replicate 1 accepted = [accepted]" and r2: "replicate 2 accepted = [accepted, accepted]"
    and r0: "replicate 0 accepted = []"
    by (simp_all add: numeral_2_eq_2)
  have A: "\<exists>s'. producer_run conf_init quiet [] [Open_fails, Contents [0x61]] [[Delivery_ok]]
            (state_init [accepted]) = Some (Inr s')
        \<and> map m_buf (produced s') = [Some [0x61]] \<and> exit_status (Inr s') = 0"
    using batch_exit_code [OF _ line sg run acc _ o1 init,
        of "[Open_fails, Contents [0x61]]" 1 "[]", unfolded r1]
    by (auto simp: state_init_def file_fails_def)
  have B: "\<exists>s'. producer_run conf_init quiet [] [Open_fails, Stat_fails] [] (state_init [])
            = Some (Inr s') \<and> produced s' = [] \<and> exit_status (Inr s') = 1"
    using batch_exit_code [OF _ line sg run acc _ o0 init,
        of "[Open_fails, Stat_fails]" 0 "[]", unfolded r0]
    by (auto simp: state_init_def file_fails_def)
  have C: "\<exists>s'. producer_run conf_init quiet [] [Contents [0x61], Contents [0x62]] []
            (state_init [accepted, accepted]) = Some (Inr s')
        \<and> map m_buf (produced s') = [Some [0x61], Some [0x62]] \<and> exit_status (Inr s') = 0"
    using batch_exit_code [OF _ line sg run acc _ o0 init,
        of "[Contents [0x61], Contents [0x62]]" 2 "[]", unfolded r2]
    by (auto simp: state_init_def file_fails_def)
  from A B C show ?thesis by blast
qed

section \<open>End of partition\<close>

text \<open>Only partitions that are asked for are started.\<close>

lemma consume_start_wanted:
  "consume_start cf start_fails ps s = Inr (broke, s') \<Longrightarrow>
     set (started s') \<subseteq> set (started s)
        \<union> {p \<in> set ps. partition_c cf = RD_KAFKA_PARTITION_UA \<or> p = partition_c cf}"
proof (induction ps arbitrary: s)
  case Nil
  then show ?case by simp
next
  case (Cons p ps)
  show ?case
  proof (cases "partition_c cf \<noteq> RD_KAFKA_PARTITION_UA \<and> partition_c cf \<noteq> p")
    case True
    with Cons.prems have "consume_start cf start_fails ps s = Inr (broke, s')"
      by simp
    from Cons.IH [OF this] show ?thesis by auto
  next
    case False
    show ?thesis
    proof (cases "partition_c cf \<noteq> RD_KAFKA_PARTITION_UA")
      case True
      with False Cons.prems show ?thesis
        by (auto split: if_splits)
    next
      case ua: False
      with Cons.prems have nf: "\<not> start_fails p"
        and r: "consume_start cf start_fails ps (s\<lparr>started := started s @ [p]\<rparr>) = Inr (broke, s')"
        by (auto split: if_splits)
      from Cons.IH [OF r] ua show ?thesis by auto
    qed
  qed
qed

lemma wanted_finite: "\<forall>p \<in> obs. wanted cf n p \<Longrightarrow> finite obs \<and> card obs \<le> n"
proof -
  assume a: "\<forall>p \<in> obs. wanted cf n p"
  then have sub: "obs \<subseteq> int ` {0..<n}"
  proof (intro subsetI)
    fix p assume "p \<in> obs"
    with a have "0 \<le> p" "p < int n" by (auto simp: wanted_def)
    then have "p = int (nat p)" "nat p \<in> {0..<n}" by auto
    then show "p \<in> int ` {0..<n}" by blast
  qed
  then have f: "finite obs"
    by (rule finite_subset) simp
  from sub have "card obs \<le> card (int ` {0..<n})"
    by (intro card_mono) simp_all
  also have "\<dots> \<le> n"
    using card_image_le [of "{0..<n}" int] by simp
  finally show ?thesis using f by simp
qed

lemma wanted_all_observed:
  assumes sub: "\<forall>p \<in> obs. wanted cf n p"
    and full: "(if partition_c cf \<noteq> RD_KAFKA_PARTITION_UA then 1 else int n) \<le> int (card obs)"
    and p: "wanted cf n p"
  shows "p \<in> obs"
proof (cases "partition_c cf \<noteq> RD_KAFKA_PARTITION_UA")
  case True
  with full have "card obs \<noteq> 0" by auto
  then obtain q where q: "q \<in> obs"
    by (cases "obs = {}") auto
  with sub True have "q = partition_c cf" by (auto simp: wanted_def)
  moreover from p True have "p = partition_c cf" by (auto simp: wanted_def)
  ultimately show ?thesis using q by simp
next
  case False
  have sub': "obs \<subseteq> int ` {0..<n}"
  proof (intro subsetI)
    fix q assume "q \<in> obs"
    with sub have "0 \<le> q" "q < int n" by (auto simp: wanted_def)
    then have "q = int (nat q)" "nat q \<in> {0..<n}" by auto
    then show "q \<in> int ` {0..<n}" by blast
  qed
  have "card (int ` {0..<n}) = n"
    by (simp add: card_image)
  with full False have "card (int ` {0..<n}) \<le> card obs" by simp
  with sub' have "obs = int ` {0..<n}"
    by (intro card_seteq) simp_all
  moreover from p have "p \<in> int ` {0..<n}"
  proof -
    from p have "0 \<le> p" "p < int n" by (auto simp: wanted_def)
    then have "p = int (nat p)" "nat p \<in> {0..<n}" by auto
    then show ?thesis by blast
  qed
  ultimately show ?thesis by simp
qed

lemma eof_table_nth:
  "0 \<le> p \<Longrightarrow> p < int n \<Longrightarrow> eof_table n obs ! nat p = (if p \<in> obs then 1 else 0)"
  by (simp add: eof_table_def)

lemma eof_table_update:
  "0 \<le> p \<Longrightarrow> p < int n \<Longrightarrow> (eof_table n obs)[nat p := 1] = eof_table n (insert p obs)"
  by (rule nth_equalityI) (auto simp: eof_table_def nth_list_update)

lemma consume_cb_stopped:
  "\<not> run s \<Longrightarrow> consume_cb cf w rkm s = Inr (read_run w s)"
  by (simp add: consume_cb_def Let_def read_run_def)

lemma consume_cb_eof:
  assumes ee: "exit_eof cf" and sg: "\<forall>k. \<not> w_signal w k"
    and inv: "eof_inv cf n obs s"
    and e: "rkm_err rkm = PARTITION_EOF" and p: "wanted cf n (rkm_partition rkm)"
  shows "\<exists>s'. consume_cb cf w rkm s = Inr s' \<and> eof_inv cf n (insert (rkm_partition rkm) obs) s'
          \<and> rx s' = rx s \<and> rendered s' = rendered s
          \<and> (run s \<longrightarrow> stored s' = stored s @
                [(rkm_partition rkm, if rkm_offset rkm = 0 then 0 else rkm_offset rkm - 1)])"
proof -
  let ?p = "rkm_partition rkm"
  from inv have arr: "part_eof s = Some (eof_table n obs)" and cnt: "part_eof_cnt s = int (card obs)"
    and sub: "\<forall>p \<in> obs. wanted cf n p"
    and th: "part_eof_thres s = (if partition_c cf \<noteq> RD_KAFKA_PARTITION_UA then 1 else int n)"
    and rn: "run s \<longleftrightarrow> int (card obs) < part_eof_thres s"
    by (simp_all add: eof_inv_def)
  from p have pr: "0 \<le> ?p" "?p < int n" by (auto simp: wanted_def)
  from wanted_finite [OF sub] have fin: "finite obs" by simp
  show ?thesis
  proof (cases "run s")
    case False
    with rn th have "(if partition_c cf \<noteq> RD_KAFKA_PARTITION_UA then 1 else int n) \<le> int (card obs)"
      by simp
    from wanted_all_observed [OF sub this p] have "insert ?p obs = obs" by auto
    with False inv show ?thesis
      by (simp add: consume_cb_stopped eof_inv_def read_run_def)
  next
    case True
    let ?s0 = "read_run w s"
    let ?s1 = "?s0\<lparr>stored := stored ?s0 @ [(?p, if rkm_offset rkm = 0 then 0 else rkm_offset rkm - 1)]\<rparr>"
    from True sg have r0: "run ?s0" by (simp add: read_run_def)
    show ?thesis
    proof (cases "?p \<in> obs")
      case True
      then have same: "insert ?p obs = obs" by auto
      from True pr have "eof_table n obs ! nat ?p \<noteq> 0"
        by (simp add: eof_table_nth)
      with r0 e ee arr pr have "consume_cb cf w rkm s = Inr ?s1"
        by (simp add: consume_cb_def Let_def read_run_def eof_table_def)
      moreover from inv \<open>run s\<close> sg have "eof_inv cf n obs ?s1"
        by (simp add: eof_inv_def read_run_def)
      ultimately show ?thesis
        by (simp add: same read_run_def)
    next
      case False
      let ?s2 = "?s1\<lparr>stopped := stopped ?s1 @ [?p],
                     part_eof := Some ((eof_table n obs)[nat ?p := 1]),
                     part_eof_cnt := part_eof_cnt ?s1 + 1\<rparr>"
      let ?s3 = "if part_eof_cnt ?s2 \<ge> part_eof_thres ?s2 then ?s2\<lparr>run := False\<rparr> else ?s2"
      from False pr have z: "eof_table n obs ! nat ?p = 0"
        by (simp add: eof_table_nth)
      have len: "length (eof_table n obs) = n"
        by (simp add: eof_table_def)
      from r0 e ee arr pr z len have c: "consume_cb cf w rkm s = Inr ?s3"
        by (simp add: consume_cb_def Let_def read_run_def)
      from fin False have card: "card (insert ?p obs) = Suc (card obs)"
        by simp
      have "eof_inv cf n (insert ?p obs) ?s3"
        using cnt sub th p pr card \<open>run s\<close> sg
        by (auto simp: eof_inv_def eof_table_update read_run_def)
      with c show ?thesis
        by (auto simp: read_run_def)
    qed
  qed
qed

lemma consume_cb_data:
  assumes sg: "\<forall>k. \<not> w_signal w k" and e: "rkm_err rkm = NO_ERROR"
    and l: "rx s + 1 \<noteq> msg_cnt cf" and r: "run s"
  shows "\<exists>s'. consume_cb cf w rkm s = Inr s' \<and> run s' \<and> rx s' = rx s + 1
          \<and> rendered s' = rendered s @ [rkm]
          \<and> stored s' = stored s @ [(rkm_partition rkm, rkm_offset rkm)]
          \<and> part_eof s' = part_eof s \<and> part_eof_cnt s' = part_eof_cnt s
          \<and> part_eof_thres s' = part_eof_thres s"
  using assms by (simp add: consume_cb_def Let_def read_run_def)

lemma eof_partitions_Cons:
  "eof_partitions (m # ms)
     = (if rkm_err m = PARTITION_EOF then insert (rkm_partition m) (eof_partitions ms)
        else eof_partitions ms)"
  by (simp add: eof_partitions_def)

lemma eof_sequence:
  assumes ee: "exit_eof cf" and sg: "\<forall>k. \<not> w_signal w k"
  shows "eof_inv cf n obs s \<Longrightarrow>
     \<forall>m \<in> set msgs. rkm_err m \<noteq> OTHER_ERROR
        \<and> (rkm_err m = PARTITION_EOF \<longrightarrow> wanted cf n (rkm_partition m)) \<Longrightarrow>
     length (data_msgs msgs) \<le> unat (msg_cnt cf - rx s - 1) \<Longrightarrow>
     \<exists>s'. consume_callback_queue cf w msgs s = Inr s'
        \<and> eof_inv cf n (obs \<union> eof_partitions msgs) s'"
proof (induction msgs arbitrary: obs s)
  case Nil
  then show ?case by (simp add: eof_partitions_def)
next
  case (Cons m ms)
  from Cons.prems(2) have wf: "\<forall>m \<in> set ms. rkm_err m \<noteq> OTHER_ERROR
        \<and> (rkm_err m = PARTITION_EOF \<longrightarrow> wanted cf n (rkm_partition m))"
    by simp
  show ?case
  proof (cases "rkm_err m")
    case PARTITION_EOF
    with Cons.prems(2) have p: "wanted cf n (rkm_partition m)" by simp
    from consume_cb_eof [OF ee sg Cons.prems(1) PARTITION_EOF p] obtain s1 where
      s1: "consume_cb cf w m s = Inr s1" "eof_inv cf n (insert (rkm_partition m) obs) s1"
        "rx s1 = rx s"
      by blast
    from Cons.prems(3) PARTITION_EOF s1(3)
    have l: "length (data_msgs ms) \<le> unat (msg_cnt cf - rx s1 - 1)"
      by (simp add: data_msgs_def)
    from Cons.IH [OF s1(2) wf l] s1(1) PARTITION_EOF show ?thesis
      by (simp add: eof_partitions_Cons)
  next
    case NO_ERROR
    show ?thesis
    proof (cases "run s")
      case True
      from Cons.prems(3) NO_ERROR
      have "Suc (length (data_msgs ms)) \<le> unat (msg_cnt cf - rx s - 1)"
        by (simp add: data_msgs_def)
      note lim = limit_step [OF this]
      from consume_cb_data [OF sg NO_ERROR lim(1) True] obtain s1 where
        s1: "consume_cb cf w m s = Inr s1" "run s1" "rx s1 = rx s + 1"
          "part_eof s1 = part_eof s" "part_eof_cnt s1 = part_eof_cnt s"
          "part_eof_thres s1 = part_eof_thres s"
        by blast
      from Cons.prems(1) True s1 have i1: "eof_inv cf n obs s1"
        by (simp add: eof_inv_def)
      from lim(2) s1(3) have l: "length (data_msgs ms) \<le> unat (msg_cnt cf - rx s1 - 1)"
        by simp
      from Cons.IH [OF i1 wf l] s1(1) NO_ERROR show ?thesis
        by (simp add: eof_partitions_Cons)
    next
      case False
      then have c: "consume_cb cf w m s = Inr (read_run w s)"
        by (rule consume_cb_stopped)
      from Cons.prems(1) False have i1: "eof_inv cf n obs (read_run w s)"
        by (simp add: eof_inv_def read_run_def)
      from Cons.prems(3) NO_ERROR
      have l: "length (data_msgs ms) \<le> unat (msg_cnt cf - rx (read_run w s) - 1)"
        by (simp add: data_msgs_def read_run_def)
      from Cons.IH [OF i1 wf l] c NO_ERROR show ?thesis
        by (simp add: eof_partitions_Cons)
    qed
  next
    case OTHER_ERROR
    with Cons.prems(2) show ?thesis by simp
  qed
qed

lemma consumer_init_inv:
  assumes ee: "exit_eof cf" and init: "consumer_init cf md s0 = Inr s"
    and c0: "part_eof_cnt s0 = 0" and r0: "run s0"
  shows "eof_inv cf (length (partitions md)) {} s \<and> rx s = rx s0 \<and> partitions md \<noteq> []"
  using assms
  by (auto simp: consumer_init_def eof_inv_def eof_table_def map_replicate_const
        split: if_splits)

text \<open>
  C4. With exit-at-EOF on, from the state that \<open>consumer_run\<close> sets up, for every
  sequence of messages from wanted partitions (EOF markers and messages proper, fewer of
  the latter than the message-count limit allows) and one more EOF marker: after the
  sequence the observed count is the number of distinct partitions that have sent an EOF
  marker and the table marks exactly these partitions; the further marker does not lower
  the count, the count never exceeds the partition count, and a marker for a partition
  that is already observed changes neither the table nor the count.
\<close>

theorem eof_count_distinct:
  assumes ee: "exit_eof cf" and sg: "\<forall>k. \<not> w_signal w k"
    and init: "consumer_init cf md s0 = Inr s" and c0: "part_eof_cnt s0 = 0" and r0: "run s0"
    and wf: "\<forall>m \<in> set (msgs @ [m']). rkm_err m \<noteq> OTHER_ERROR
               \<and> (rkm_err m = PARTITION_EOF \<longrightarrow> wanted cf (length (partitions md)) (rkm_partition m))"
    and lim: "length (data_msgs msgs) \<le> unat (msg_cnt cf - rx s0 - 1)"
    and e': "rkm_err m' = PARTITION_EOF"
  shows "\<exists>s1 s2. consume_callback_queue cf w msgs s = Inr s1 \<and> consume_cb cf w m' s1 = Inr s2
          \<and> part_eof_cnt s1 = int (card (eof_partitions msgs))
          \<and> part_eof s1 = Some (eof_table (length (partitions md)) (eof_partitions msgs))
          \<and> part_eof_cnt s2 = int (card (eof_partitions (msgs @ [m'])))
          \<and> part_eof_cnt s1 \<le> part_eof_cnt s2
          \<and> part_eof_cnt s2 \<le> int (length (partitions md))
          \<and> (rkm_partition m' \<in> eof_partitions msgs \<longrightarrow>
                part_eof s2 = part_eof s1 \<and> part_eof_cnt s2 = part_eof_cnt s1)"
proof -
  let ?n = "length (partitions md)"
  let ?A = "eof_partitions msgs"
  let ?p = "rkm_partition m'"
  from consumer_init_inv [OF ee init c0 r0] have i0: "eof_inv cf ?n {} s" and rx: "rx s = rx s0"
    by simp_all
  from wf have wf1: "\<forall>m \<in> set msgs. rkm_err m \<noteq> OTHER_ERROR
        \<and> (rkm_err m = PARTITION_EOF \<longrightarrow> wanted cf ?n (rkm_partition m))"
    and p: "wanted cf ?n ?p"
    using e' by simp_all
  from lim rx have l: "length (data_msgs msgs) \<le> unat (msg_cnt cf - rx s - 1)"
    by simp
  from eof_sequence [OF ee sg i0 wf1 l] obtain s1 where
    s1: "consume_callback_queue cf w msgs s = Inr s1" "eof_inv cf ?n ?A s1"
    by auto
  from consume_cb_eof [OF ee sg s1(2) e' p] obtain s2 where
    s2: "consume_cb cf w m' s1 = Inr s2" "eof_inv cf ?n (insert ?p ?A) s2"
    by blast
  have B: "eof_partitions (msgs @ [m']) = insert ?p ?A"
    using e' by (auto simp: eof_partitions_def)
  from s2(2) have "\<forall>q \<in> insert ?p ?A. wanted cf ?n q"
    by (simp add: eof_inv_def)
  from wanted_finite [OF this] have fin: "finite (insert ?p ?A)" and le: "card (insert ?p ?A) \<le> ?n"
    by simp_all
  have mono: "card ?A \<le> card (insert ?p ?A)"
    using fin by (intro card_mono) auto
  have rep: "insert ?p ?A = ?A" if "?p \<in> ?A"
    using that by auto
  from s1 s2 B le mono rep show ?thesis
    by (intro exI [of _ s1] exI [of _ s2]) (auto simp: eof_inv_def)
qed

text \<open>
  Three partitions, no partition asked for: after EOF markers from partitions 0, 1 and 0
  again the count is 2 and the table is 1, 1, 0; one more marker from partition 1 leaves
  the count at 2 and the table as it is.
\<close>

theorem eof_count_distinct_witness:
  "\<exists>s1 s2.
     consume_callback_queue (conf_init\<lparr>exit_eof := True\<rparr>) quiet
       [\<lparr>rkm_err = PARTITION_EOF, rkm_partition = 0, rkm_offset = 7, rkm_payload = None, rkm_key = None\<rparr>,
        \<lparr>rkm_err = PARTITION_EOF, rkm_partition = 1, rkm_offset = 0, rkm_payload = None, rkm_key = None\<rparr>,
        \<lparr>rkm_err = PARTITION_EOF, rkm_partition = 0, rkm_offset = 7, rkm_payload = None, rkm_key = None\<rparr>]
       (projr (consumer_init (conf_init\<lparr>exit_eof := True\<rparr>)
                 \<lparr>md_failed = False, topic_cnt = 1, topic_err = False, partitions = [0, 1, 2]\<rparr>
                 (state_init []))) = Inr s1
     \<and> consume_cb (conf_init\<lparr>exit_eof := True\<rparr>) quiet
         \<lparr>rkm_err = PARTITION_EOF, rkm_partition = 1, rkm_offset = 0, rkm_payload = None, rkm_key = None\<rparr>
         s1 = Inr s2
     \<and> part_eof_cnt s1 = 2 \<and> part_eof s1 = Some [1, 1, 0]
     \<and> part_eof_cnt s2 = 2 \<and> part_eof s2 = Some [1, 1, 0]"
proof -
  let ?cf = "conf_init\<lparr>exit_eof := True\<rparr>"
  let ?md = "\<lparr>md_failed = False, topic_cnt = 1, topic_err = False, partitions = [0, 1, 2]\<rparr>"
  let ?e0 = "\<lparr>rkm_err = PARTITION_EOF, rkm_partition = 0, rkm_offset = 7,
              rkm_payload = None, rkm_key = None\<rparr>"
  let ?e1 = "\<lparr>rkm_err = PARTITION_EOF, rkm_partition = 1, rkm_offset = 0,
              rkm_payload = None, rkm_key = None\<rparr>"
  let ?s = "projr (consumer_init ?cf ?md (state_init []))"
  have ee: "exit_eof ?cf" by simp
  have sg: "\<forall>k. \<not> w_signal quiet k" by (simp add: quiet_def)
  have init: "consumer_init ?cf ?md (state_init []) = Inr ?s"
    by (simp add: consumer_init_def)
  have c0: "part_eof_cnt (state_init []) = 0" and r0: "run (state_init [])"
    by (simp_all add: state_init_def)
  have wf: "\<forall>m \<in> set ([?e0, ?e1, ?e0] @ [?e1]). rkm_err m \<noteq> OTHER_ERROR
      \<and> (rkm_err m = PARTITION_EOF \<longrightarrow> wanted ?cf (length (partitions ?md)) (rkm_partition m))"
    by (simp add: wanted_def conf_init_def)
  have lim: "length (data_msgs [?e0, ?e1, ?e0]) \<le> unat (msg_cnt ?cf - rx (state_init []) - 1)"
    by (simp add: data_msgs_def)
  have e': "rkm_err ?e1 = PARTITION_EOF" by simp
  have A: "eof_partitions [?e0, ?e1, ?e0] = {0, 1}" and B: "eof_partitions ([?e0, ?e1, ?e0] @ [?e1]) = {0, 1}"
    by (auto simp: eof_partitions_def)
  have T: "eof_table (length (partitions ?md)) {0, 1} = [1, 1, 0]"
    by (simp add: eof_table_def upt_rec)
  from eof_count_distinct [OF ee sg init c0 r0 wf lim e', unfolded A B T]
  obtain s1 s2 where "consume_callback_queue ?cf quiet [?e0, ?e1, ?e0] ?s = Inr s1"
    "consume_cb ?cf quiet ?e1 s1 = Inr s2" "part_eof_cnt s1 = int (card {0, 1 :: int})"
    "part_eof s1 = Some [1, 1, 0]" "part_eof_cnt s2 = int (card {0, 1 :: int})"
    "1 \<in> {0, 1 :: int} \<longrightarrow> part_eof s2 = part_eof s1 \<and> part_eof_cnt s2 = part_eof_cnt s1"
    by auto
  then show ?thesis
    by (intro exI [of _ s1] exI [of _ s2]) simp
qed

text \<open>
  C5. With exit-at-EOF on, the threshold that \<open>consumer_run\<close> sets is 1 when a partition
  was asked for and the partition count of the topic otherwise; and for every sequence of
  messages from wanted partitions, in any order (fewer messages proper than the
  message-count limit allows), the run flag is cleared after the sequence exactly when the
  observed count, the number of distinct partitions that have sent an EOF marker, has
  reached the threshold; with the run flag cleared the receive loop ends.
\<close>

theorem eof_threshold_stop:
  assumes ee: "exit_eof cf" and sg: "\<forall>k. \<not> w_signal w k"
    and init: "consumer_init cf md s0 = Inr s" and c0: "part_eof_cnt s0 = 0" and r0: "run s0"
    and wf: "\<forall>m \<in> set msgs. rkm_err m \<noteq> OTHER_ERROR
               \<and> (rkm_err m = PARTITION_EOF \<longrightarrow> wanted cf (length (partitions md)) (rkm_partition m))"
    and lim: "length (data_msgs msgs) \<le> unat (msg_cnt cf - rx s0 - 1)"
  shows "part_eof_thres s = (if partition_c cf \<noteq> RD_KAFKA_PARTITION_UA then 1
                             else int (length (partitions md)))
       \<and> (\<exists>s'. consume_callback_queue cf w msgs s = Inr s'
             \<and> part_eof_thres s' = part_eof_thres s
             \<and> part_eof_cnt s' = int (card (eof_partitions msgs))
             \<and> (\<not> run s' \<longleftrightarrow> part_eof_thres s' \<le> part_eof_cnt s')
             \<and> (\<not> run s' \<longrightarrow> consumer_loop cf w rest s' = Some (Inr (read_run w s'))))"
proof -
  let ?n = "length (partitions md)"
  from consumer_init_inv [OF ee init c0 r0] have i0: "eof_inv cf ?n {} s" and rx: "rx s = rx s0"
    by simp_all
  from lim rx have l: "length (data_msgs msgs) \<le> unat (msg_cnt cf - rx s - 1)"
    by simp
  from eof_sequence [OF ee sg i0 wf l] obtain s' where
    s': "consume_callback_queue cf w msgs s = Inr s'" "eof_inv cf ?n (eof_partitions msgs) s'"
    by auto
  have stop: "consumer_loop cf w rest s' = Some (Inr (read_run w s'))" if "\<not> run s'"
    using that by (cases rest) (simp_all add: Let_def read_run_def)
  from i0 s' stop show ?thesis
    by (auto simp: eof_inv_def)
qed

text \<open>
  Three partitions, no partition asked for: the threshold is 3; after EOF markers from
  partitions 0 and 1 the loop still runs; after markers from 2, 0 and 1 it has stopped.
  With partition 1 asked for the threshold is 1.
\<close>

theorem eof_threshold_stop_witness:
  "part_eof_thres (projr (consumer_init (conf_init\<lparr>exit_eof := True\<rparr>)
       \<lparr>md_failed = False, topic_cnt = 1, topic_err = False, partitions = [0, 1, 2]\<rparr>
       (state_init []))) = 3
   \<and> part_eof_thres (projr (consumer_init (conf_init\<lparr>exit_eof := True, partition_c := 1\<rparr>)
       \<lparr>md_failed = False, topic_cnt = 1, topic_err = False, partitions = [0, 1, 2]\<rparr>
       (state_init []))) = 1
   \<and> (\<exists>s'. consume_callback_queue (conf_init\<lparr>exit_eof := True\<rparr>) quiet
        [\<lparr>rkm_err = PARTITION_EOF, rkm_partition = 0, rkm_offset = 7, rkm_payload = None, rkm_key = None\<rparr>,
         \<lparr>rkm_err = PARTITION_EOF, rkm_partition = 1, rkm_offset = 0, rkm_payload = None, rkm_key = None\<rparr>]
        (projr (consumer_init (conf_init\<lparr>exit_eof := True\<rparr>)
           \<lparr>md_failed = False, topic_cnt = 1, topic_err = False, partitions = [0, 1, 2]\<rparr>
           (state_init []))) = Inr s' \<and> run s')
   \<and> (\<exists>s'. consume_callback_queue (conf_init\<lparr>exit_eof := True\<rparr>) quiet
        [\<lparr>rkm_err = PARTITION_EOF, rkm_partition = 2, rkm_offset = 3, rkm_payload = None, rkm_key = None\<rparr>,
         \<lparr>rkm_err = PARTITION_EOF, rkm_partition = 0, rkm_offset = 7, rkm_payload = None, rkm_key = None\<rparr>,
         \<lparr>rkm_err = PARTITION_EOF, rkm_partition = 1, rkm_offset = 0, rkm_payload = None, rkm_key = None\<rparr>]
        (projr (consumer_init (conf_init\<lparr>exit_eof := True\<rparr>)
           \<lparr>md_failed = False, topic_cnt = 1, topic_err = False, partitions = [0, 1, 2]\<rparr>
           (state_init []))) = Inr s' \<and> \<not> run s')"
proof -
  let ?cf = "conf_init\<lparr>exit_eof := True\<rparr>"
  let ?cp = "conf_init\<lparr>exit_eof := True, partition_c := 1\<rparr>"
  let ?md = "\<lparr>md_failed = False, topic_cnt = 1, topic_err = False, partitions = [0, 1, 2]\<rparr>"
  let ?e0 = "\<lparr>rkm_err = PARTITION_EOF, rkm_partition = 0, rkm_offset = 7,
              rkm_payload = None, rkm_key = None\<rparr>"
  let ?e1 = "\<lparr>rkm_err = PARTITION_EOF, rkm_partition = 1, rkm_offset = 0,
              rkm_payload = None, rkm_key = None\<rparr>"
  let ?e2 = "\<lparr>rkm_err = PARTITION_EOF, rkm_partition = 2, rkm_offset = 3,
              rkm_payload = None, rkm_key = None\<rparr>"
  let ?s = "projr (consumer_init ?cf ?md (state_init []))"
  let ?sp = "projr (consumer_init ?cp ?md (state_init []))"
  have ee: "exit_eof ?cf" "exit_eof ?cp" by simp_all
  have sg: "\<forall>k. \<not> w_signal quiet k" by (simp add: quiet_def)
  have init: "consumer_init ?cf ?md (state_init []) = Inr ?s"
    and initp: "consumer_init ?cp ?md (state_init []) = Inr ?sp"
    by (simp_all add: consumer_init_def)
  have c0: "part_eof_cnt (state_init []) = 0" and r0: "run (state_init [])"
    by (simp_all add: state_init_def)
  have wf: "\<forall>m \<in> set ms. rkm_err m \<noteq> OTHER_ERROR
      \<and> (rkm_err m = PARTITION_EOF \<longrightarrow> wanted ?cf (length (partitions ?md)) (rkm_partition m))"
    if "set ms \<subseteq> {?e0, ?e1, ?e2}" for ms
    using that by (auto simp: wanted_def conf_init_def)
  have wfp: "\<forall>m \<in> set []. rkm_err m \<noteq> OTHER_ERROR
      \<and> (rkm_err m = PARTITION_EOF \<longrightarrow> wanted ?cp (length (partitions ?md)) (rkm_partition m))"
    by simp
  have lim: "length (data_msgs ms) \<le> unat (msg_cnt ?cf - rx (state_init []) - 1)"
    if "set ms \<subseteq> {?e0, ?e1, ?e2}" for ms
  proof -
    from that have "data_msgs ms = []"
      by (auto simp: data_msgs_def filter_empty_conv)
    then show ?thesis by simp
  qed
  have limp: "length (data_msgs []) \<le> unat (msg_cnt ?cp - rx (state_init []) - 1)"
    by (simp add: data_msgs_def)
  have ua: "partition_c ?cf = RD_KAFKA_PARTITION_UA" "partition_c ?cp \<noteq> RD_KAFKA_PARTITION_UA"
    by (simp_all add: conf_init_def RD_KAFKA_PARTITION_UA_def)
  have A: "card (eof_partitions [?e0, ?e1]) = 2" and B: "card (eof_partitions [?e2, ?e0, ?e1]) = 3"
    by (simp_all add: eof_partitions_def)
  from eof_threshold_stop [OF ee(1) sg init c0 r0 wf lim, of "[?e0, ?e1]" "[]"] ua A
  have t3: "part_eof_thres ?s = 3"
    and r2: "\<exists>s'. consume_callback_queue ?cf quiet [?e0, ?e1] ?s = Inr s' \<and> run s'"
    by auto
  from eof_threshold_stop [OF ee(1) sg init c0 r0 wf lim, of "[?e2, ?e0, ?e1]" "[]"] ua B
  have r3: "\<exists>s'. consume_callback_queue ?cf quiet [?e2, ?e0, ?e1] ?s = Inr s' \<and> \<not> run s'"
    by auto
  from eof_threshold_stop [OF ee(2) sg initp c0 r0 wfp limp, of "[]"] ua
  have t1: "part_eof_thres ?sp = 1"
    by simp
  from t3 t1 r2 r3 show ?thesis by blast
qed

section \<open>The message-count limit\<close>

lemma upto_count_split:
  "0 < k \<Longrightarrow> k \<le> length (data_msgs ms) \<Longrightarrow>
   \<exists>pre m post. ms = pre @ m # post \<and> rkm_err m = NO_ERROR
      \<and> length (data_msgs pre) = k - 1 \<and> upto_count k ms = pre @ [m]"
proof (induction ms arbitrary: k)
  case Nil
  then show ?case by (simp add: data_msgs_def)
next
  case (Cons a ms)
  from Cons.prems(1) obtain j where k: "k = Suc j" by (cases k) auto
  show ?case
  proof (cases "rkm_err a = NO_ERROR")
    case True
    show ?thesis
    proof (cases j)
      case 0
      with k True have "a # ms = [] @ a # ms \<and> rkm_err a = NO_ERROR
          \<and> length (data_msgs []) = k - 1 \<and> upto_count k (a # ms) = [] @ [a]"
        by (simp add: data_msgs_def)
      then show ?thesis by blast
    next
      case (Suc i)
      with Cons.prems k True have "0 < j" "j \<le> length (data_msgs ms)"
        by (simp_all add: data_msgs_def)
      from Cons.IH [OF this] obtain pre m post where
        "ms = pre @ m # post" "rkm_err m = NO_ERROR" "length (data_msgs pre) = j - 1"
        "upto_count j ms = pre @ [m]"
        by blast
      with k True Suc have "a # ms = (a # pre) @ m # post \<and> rkm_err m = NO_ERROR
          \<and> length (data_msgs (a # pre)) = k - 1 \<and> upto_count k (a # ms) = (a # pre) @ [m]"
        by (simp add: data_msgs_def)
      then show ?thesis by blast
    qed
  next
    case False
    with Cons.prems have "k \<le> length (data_msgs ms)"
      by (simp add: data_msgs_def)
    from Cons.IH [OF Cons.prems(1) this] obtain pre m post where
      "ms = pre @ m # post" "rkm_err m = NO_ERROR" "length (data_msgs pre) = k - 1"
      "upto_count k ms = pre @ [m]"
      by blast
    with k False have "a # ms = (a # pre) @ m # post \<and> rkm_err m = NO_ERROR
        \<and> length (data_msgs (a # pre)) = k - 1 \<and> upto_count k (a # ms) = (a # pre) @ [m]"
      by (simp add: data_msgs_def)
    then show ?thesis by blast
  qed
qed

lemma upto_count_append_lt:
  "length (data_msgs xs) < k \<Longrightarrow>
     upto_count k (xs @ ys) = xs @ upto_count (k - length (data_msgs xs)) ys"
proof (induction xs arbitrary: k)
  case Nil
  then show ?case by (simp add: data_msgs_def)
next
  case (Cons a xs)
  from Cons.prems obtain j where k: "k = Suc j" by (cases k) auto
  show ?case
  proof (cases "rkm_err a = NO_ERROR")
    case True
    with Cons.prems k have "length (data_msgs xs) < j"
      by (simp add: data_msgs_def)
    from Cons.IH [OF this] k True show ?thesis
      by (simp add: data_msgs_def)
  next
    case False
    with Cons.prems have "length (data_msgs xs) < k"
      by (simp add: data_msgs_def)
    from Cons.IH [OF this] k False show ?thesis
      by (simp add: data_msgs_def)
  qed
qed

lemma upto_count_append_ge:
  "k \<le> length (data_msgs xs) \<Longrightarrow> upto_count k (xs @ ys) = upto_count k xs"
proof (induction xs arbitrary: k)
  case Nil
  then show ?case by (simp add: data_msgs_def)
next
  case (Cons a xs)
  show ?case
  proof (cases k)
    case 0
    then show ?thesis by simp
  next
    case (Suc j)
    show ?thesis
    proof (cases "rkm_err a = NO_ERROR")
      case True
      with Cons.prems Suc have "j \<le> length (data_msgs xs)"
        by (simp add: data_msgs_def)
      from Cons.IH [OF this] Suc True show ?thesis by simp
    next
      case False
      with Cons.prems have "k \<le> length (data_msgs xs)"
        by (simp add: data_msgs_def)
      from Cons.IH [OF this] Suc False show ?thesis by simp
    qed
  qed
qed

lemma data_upto_count: "data_msgs (upto_count k ms) = take k (data_msgs ms)"
proof (induction k ms rule: upto_count.induct)
  case (1 msgs)
  then show ?case by (simp add: data_msgs_def)
next
  case (2 k)
  then show ?case by (simp add: data_msgs_def)
next
  case (3 k m ms)
  then show ?case
    by (cases "rkm_err m = NO_ERROR") (simp_all add: data_msgs_def)
qed

lemma eof_inv_same:
  "eof_inv cf n obs s \<Longrightarrow> part_eof s' = part_eof s \<Longrightarrow> part_eof_cnt s' = part_eof_cnt s \<Longrightarrow>
   part_eof_thres s' = part_eof_thres s \<Longrightarrow> run s' = run s \<Longrightarrow> eof_inv cf n obs s'"
  by (simp add: eof_inv_def)

lemma consume_callback_queue_append:
  "consume_callback_queue cf w (xs @ ys) s
     = (case consume_callback_queue cf w xs s of
          Inl f \<Rightarrow> Inl f
        | Inr s' \<Rightarrow> consume_callback_queue cf w ys s')"
  by (induction xs arbitrary: s) (auto split: sum.splits)

lemma consume_callback_queue_stopped:
  "\<not> run s \<Longrightarrow>
   \<exists>s'. consume_callback_queue cf w msgs s = Inr s' \<and> \<not> run s' \<and> rx s' = rx s
      \<and> rendered s' = rendered s \<and> stored s' = stored s"
proof (induction msgs arbitrary: s)
  case Nil
  then show ?case by simp
next
  case (Cons m ms)
  from Cons.prems have c: "consume_cb cf w m s = Inr (read_run w s)"
    by (rule consume_cb_stopped)
  from Cons.prems have "\<not> run (read_run w s)"
    by (simp add: read_run_def)
  from Cons.IH [OF this] c show ?case
    by (simp add: read_run_def)
qed

lemma consume_cb_eof_off:
  assumes "\<not> exit_eof cf" and "\<forall>k. \<not> w_signal w k" and "run s"
    and "rkm_err rkm = PARTITION_EOF"
  shows "\<exists>s'. consume_cb cf w rkm s = Inr s' \<and> run s' \<and> rx s' = rx s
          \<and> rendered s' = rendered s
          \<and> stored s' = stored s @
                [(rkm_partition rkm, if rkm_offset rkm = 0 then 0 else rkm_offset rkm - 1)]"
  using assms by (simp add: consume_cb_def Let_def read_run_def)

lemma running_prefix:
  assumes sg: "\<forall>k. \<not> w_signal w k"
  shows "run s \<Longrightarrow>
     \<forall>m \<in> set pre. rkm_err m \<noteq> OTHER_ERROR \<Longrightarrow>
     length (data_msgs pre) \<le> unat (msg_cnt cf - rx s - 1) \<Longrightarrow>
     exit_eof cf \<longrightarrow> eof_inv cf n obs s
        \<and> (\<forall>m \<in> set pre. rkm_err m = PARTITION_EOF \<longrightarrow> wanted cf n (rkm_partition m))
        \<and> int (card (obs \<union> eof_partitions pre)) < part_eof_thres s \<Longrightarrow>
     \<exists>s'. consume_callback_queue cf w pre s = Inr s' \<and> run s'
        \<and> rx s' = rx s + of_nat (length (data_msgs pre))
        \<and> rendered s' = rendered s @ data_msgs pre
        \<and> stored s' = stored s @ offset_stores pre
        \<and> part_eof_thres s' = part_eof_thres s
        \<and> (exit_eof cf \<longrightarrow> eof_inv cf n (obs \<union> eof_partitions pre) s')"
proof (induction pre arbitrary: obs s)
  case Nil
  then show ?case
    by (simp add: data_msgs_def offset_stores_def eof_partitions_def)
next
  case (Cons m ms)
  from Cons.prems(2) have wf: "\<forall>m \<in> set ms. rkm_err m \<noteq> OTHER_ERROR" by simp
  show ?case
  proof (cases "rkm_err m")
    case NO_ERROR
    from Cons.prems(3) NO_ERROR
    have "Suc (length (data_msgs ms)) \<le> unat (msg_cnt cf - rx s - 1)"
      by (simp add: data_msgs_def)
    note lim = limit_step [OF this]
    from consume_cb_data [OF sg NO_ERROR lim(1) Cons.prems(1)] obtain s1 where
      s1: "consume_cb cf w m s = Inr s1" "run s1" "rx s1 = rx s + 1"
        "rendered s1 = rendered s @ [m]"
        "stored s1 = stored s @ [(rkm_partition m, rkm_offset m)]"
        "part_eof s1 = part_eof s" "part_eof_cnt s1 = part_eof_cnt s"
        "part_eof_thres s1 = part_eof_thres s"
      by blast
    from lim(2) s1(3) have l: "length (data_msgs ms) \<le> unat (msg_cnt cf - rx s1 - 1)"
      by simp
    have e: "exit_eof cf \<longrightarrow> eof_inv cf n obs s1
        \<and> (\<forall>m \<in> set ms. rkm_err m = PARTITION_EOF \<longrightarrow> wanted cf n (rkm_partition m))
        \<and> int (card (obs \<union> eof_partitions ms)) < part_eof_thres s1"
    proof
      assume ee: "exit_eof cf"
      with Cons.prems(4) have inv: "eof_inv cf n obs s"
        and w: "\<forall>m \<in> set ms. rkm_err m = PARTITION_EOF \<longrightarrow> wanted cf n (rkm_partition m)"
        and c: "int (card (obs \<union> eof_partitions (m # ms))) < part_eof_thres s"
        by simp_all
      from eof_inv_same [OF inv s1(6,7,8)] Cons.prems(1) s1(2) have "eof_inv cf n obs s1"
        by simp
      moreover from c NO_ERROR s1(8)
      have "int (card (obs \<union> eof_partitions ms)) < part_eof_thres s1"
        by (simp add: eof_partitions_Cons)
      ultimately show "eof_inv cf n obs s1
        \<and> (\<forall>m \<in> set ms. rkm_err m = PARTITION_EOF \<longrightarrow> wanted cf n (rkm_partition m))
        \<and> int (card (obs \<union> eof_partitions ms)) < part_eof_thres s1"
        using w by blast
    qed
    from Cons.IH [OF s1(2) wf l e] obtain s' where
      "consume_callback_queue cf w ms s1 = Inr s'" "run s'"
      "rx s' = rx s1 + of_nat (length (data_msgs ms))"
      "rendered s' = rendered s1 @ data_msgs ms" "stored s' = stored s1 @ offset_stores ms"
      "part_eof_thres s' = part_eof_thres s1"
      "exit_eof cf \<longrightarrow> eof_inv cf n (obs \<union> eof_partitions ms) s'"
      by blast
    with s1 NO_ERROR show ?thesis
      by (intro exI [of _ s'])
        (simp add: data_msgs_def offset_stores_def eof_partitions_Cons)
  next
    case PARTITION_EOF
    let ?p = "rkm_partition m"
    let ?st = "(?p, if rkm_offset m = 0 then 0 else rkm_offset m - 1)"
    from Cons.prems(3) PARTITION_EOF
    have l0: "length (data_msgs ms) \<le> unat (msg_cnt cf - rx s - 1)"
      by (simp add: data_msgs_def)
    have "\<exists>s1. consume_cb cf w m s = Inr s1 \<and> run s1 \<and> rx s1 = rx s
        \<and> rendered s1 = rendered s \<and> stored s1 = stored s @ [?st]
        \<and> part_eof_thres s1 = part_eof_thres s
        \<and> (exit_eof cf \<longrightarrow> eof_inv cf n (insert ?p obs) s1)"
    proof (cases "exit_eof cf")
      case False
      from consume_cb_eof_off [OF False sg Cons.prems(1) PARTITION_EOF] obtain s1 where
        s1: "consume_cb cf w m s = Inr s1" "run s1" "rx s1 = rx s" "rendered s1 = rendered s"
          "stored s1 = stored s @ [?st]"
        by blast
      moreover from s1(1) False Cons.prems(1) sg PARTITION_EOF
      have "part_eof_thres s1 = part_eof_thres s"
        by (auto simp: consume_cb_def Let_def read_run_def)
      ultimately show ?thesis using False by blast
    next
      case True
      with Cons.prems(4) PARTITION_EOF have inv: "eof_inv cf n obs s" and p: "wanted cf n ?p"
        and c: "int (card (obs \<union> eof_partitions (m # ms))) < part_eof_thres s"
        by simp_all
      from consume_cb_eof [OF True sg inv PARTITION_EOF p] Cons.prems(1) obtain s1 where
        s1: "consume_cb cf w m s = Inr s1" "eof_inv cf n (insert ?p obs) s1" "rx s1 = rx s"
          "rendered s1 = rendered s" "stored s1 = stored s @ [?st]"
        by blast
      from inv s1(2) have th: "part_eof_thres s1 = part_eof_thres s"
        by (simp add: eof_inv_def)
      from inv have "finite obs"
        using wanted_finite [of obs cf n] by (simp add: eof_inv_def)
      then have fin: "finite (obs \<union> eof_partitions (m # ms))"
        by (simp add: eof_partitions_def)
      have "insert ?p obs \<subseteq> obs \<union> eof_partitions (m # ms)"
        using PARTITION_EOF by (auto simp: eof_partitions_Cons)
      from card_mono [OF fin this] c have "int (card (insert ?p obs)) < part_eof_thres s"
        by simp
      with s1(2) th have "run s1"
        by (simp add: eof_inv_def)
      with s1 th True show ?thesis by blast
    qed
    then obtain s1 where
      s1: "consume_cb cf w m s = Inr s1" "run s1" "rx s1 = rx s" "rendered s1 = rendered s"
        "stored s1 = stored s @ [?st]" "part_eof_thres s1 = part_eof_thres s"
        "exit_eof cf \<longrightarrow> eof_inv cf n (insert ?p obs) s1"
      by blast
    from l0 s1(3) have l: "length (data_msgs ms) \<le> unat (msg_cnt cf - rx s1 - 1)"
      by simp
    have u: "insert ?p obs \<union> eof_partitions ms = obs \<union> eof_partitions (m # ms)"
      using PARTITION_EOF by (auto simp: eof_partitions_Cons)
    have e: "exit_eof cf \<longrightarrow> eof_inv cf n (insert ?p obs) s1
        \<and> (\<forall>m \<in> set ms. rkm_err m = PARTITION_EOF \<longrightarrow> wanted cf n (rkm_partition m))
        \<and> int (card (insert ?p obs \<union> eof_partitions ms)) < part_eof_thres s1"
      using Cons.prems(4) s1(6,7) unfolding u by simp
    from Cons.IH [OF s1(2) wf l e] obtain s' where
      "consume_callback_queue cf w ms s1 = Inr s'" "run s'"
      "rx s' = rx s1 + of_nat (length (data_msgs ms))"
      "rendered s' = rendered s1 @ data_msgs ms" "stored s' = stored s1 @ offset_stores ms"
      "part_eof_thres s' = part_eof_thres s1"
      "exit_eof cf \<longrightarrow> eof_inv cf n (insert ?p obs \<union> eof_partitions ms) s'"
      by blast
    with s1 PARTITION_EOF u show ?thesis
      by (intro exI [of _ s']) (simp add: data_msgs_def offset_stores_def)
  next
    case OTHER_ERROR
    with Cons.prems(2) show ?thesis by simp
  qed
qed

lemma eof_partitions_append:
  "eof_partitions (xs @ ys) = eof_partitions xs \<union> eof_partitions ys"
  by (simp add: eof_partitions_def)

lemma word_of_nat_pred:
  "0 < k \<Longrightarrow> k < 2 ^ 64 \<Longrightarrow> unat (of_nat k - 1 :: 64 word) = k - 1"
proof -
  assume k: "0 < k" "k < 2 ^ 64"
  then have "(of_nat k :: 64 word) \<noteq> 0"
    by (intro of_nat_neq_0) simp_all
  then have "unat (of_nat k - 1 :: 64 word) = unat (of_nat k :: 64 word) - 1"
    by (rule unat_minus_one)
  moreover from k have "unat (of_nat k :: 64 word) = k"
    by (simp add: unat_of_nat)
  ultimately show ?thesis by simp
qed

lemma consume_cb_last:
  assumes sg: "\<forall>k. \<not> w_signal w k" and e: "rkm_err rkm = NO_ERROR"
    and l: "rx s + 1 = msg_cnt cf" and r: "run s"
  shows "\<exists>s'. consume_cb cf w rkm s = Inr s' \<and> \<not> run s' \<and> rx s' = msg_cnt cf
          \<and> rendered s' = rendered s @ [rkm]
          \<and> stored s' = stored s @ [(rkm_partition rkm, rkm_offset rkm)]"
  using assms by (simp add: consume_cb_def Let_def read_run_def)

lemma batch_with_limit:
  assumes sg: "\<forall>k. \<not> w_signal w k" and r: "run s"
    and c: "msg_cnt cf = rx s + of_nat k" and k: "0 < k" "k < 2 ^ 64"
    and en: "k \<le> length (data_msgs ms)"
    and wf: "\<forall>m \<in> set (upto_count k ms). rkm_err m \<noteq> OTHER_ERROR"
    and eof: "exit_eof cf \<longrightarrow> eof_inv cf n obs s
        \<and> (\<forall>m \<in> set (upto_count k ms). rkm_err m = PARTITION_EOF \<longrightarrow> wanted cf n (rkm_partition m))
        \<and> int (card (obs \<union> eof_partitions (upto_count k ms))) < part_eof_thres s"
  shows "\<exists>s'. consume_callback_queue cf w ms s = Inr s' \<and> \<not> run s' \<and> rx s' = msg_cnt cf
          \<and> rendered s' = rendered s @ take k (data_msgs ms)
          \<and> stored s' = stored s @ offset_stores (upto_count k ms)"
proof -
  from upto_count_split [OF k(1) en] obtain pre m post where
    sp: "ms = pre @ m # post" "rkm_err m = NO_ERROR" "length (data_msgs pre) = k - 1"
      "upto_count k ms = pre @ [m]"
    by blast
  have wfp: "\<forall>m \<in> set pre. rkm_err m \<noteq> OTHER_ERROR"
    using wf sp(4) by simp
  have lim: "length (data_msgs pre) \<le> unat (msg_cnt cf - rx s - 1)"
    using sp(3) c word_of_nat_pred [OF k] by simp
  have ep: "eof_partitions (pre @ [m]) = eof_partitions pre"
    using sp(2) by (simp add: eof_partitions_def)
  have e1: "exit_eof cf \<longrightarrow> eof_inv cf n obs s
        \<and> (\<forall>m \<in> set pre. rkm_err m = PARTITION_EOF \<longrightarrow> wanted cf n (rkm_partition m))
        \<and> int (card (obs \<union> eof_partitions pre)) < part_eof_thres s"
    using eof unfolding sp(4) ep by simp
  from running_prefix [OF sg r wfp lim e1] obtain s1 where
    s1: "consume_callback_queue cf w pre s = Inr s1" "run s1"
      "rx s1 = rx s + of_nat (length (data_msgs pre))"
      "rendered s1 = rendered s @ data_msgs pre" "stored s1 = stored s @ offset_stores pre"
    by blast
  from k(1) obtain j where j: "k = Suc j" by (cases k) auto
  from s1(3) sp(3) c j have "rx s1 + 1 = msg_cnt cf"
    by simp
  from consume_cb_last [OF sg sp(2) this s1(2)] obtain s2 where
    s2: "consume_cb cf w m s1 = Inr s2" "\<not> run s2" "rx s2 = msg_cnt cf"
      "rendered s2 = rendered s1 @ [m]"
      "stored s2 = stored s1 @ [(rkm_partition m, rkm_offset m)]"
    by blast
  from consume_callback_queue_stopped [OF s2(2), of cf w post] obtain s3 where
    s3: "consume_callback_queue cf w post s2 = Inr s3" "\<not> run s3" "rx s3 = rx s2"
      "rendered s3 = rendered s2" "stored s3 = stored s2"
    by blast
  have q: "consume_callback_queue cf w ms s = Inr s3"
    using s1(1) s2(1) s3(1) by (simp add: sp(1) consume_callback_queue_append)
  have d: "data_msgs pre @ [m] = take k (data_msgs ms)"
  proof -
    have "data_msgs (upto_count k ms) = data_msgs pre @ [m]"
      using sp(2) by (simp add: sp(4) data_msgs_def)
    then show ?thesis by (simp add: data_upto_count)
  qed
  have o: "offset_stores pre @ [(rkm_partition m, rkm_offset m)] = offset_stores (upto_count k ms)"
    using sp(2) by (simp add: sp(4) offset_stores_def)
  from q s1 s2 s3 d o show ?thesis
    by (intro exI [of _ s3]) simp
qed

lemma consumer_loop_limit:
  assumes sg: "\<forall>k. \<not> w_signal w k"
  shows "\<forall>b \<in> set batches. Err_all_brokers_down \<notin> set (snd b) \<Longrightarrow>
     run s \<Longrightarrow> msg_cnt cf = rx s + of_nat k \<Longrightarrow> 0 < k \<Longrightarrow> k < 2 ^ 64 \<Longrightarrow>
     k \<le> length (data_msgs (concat (map fst batches))) \<Longrightarrow>
     \<forall>m \<in> set (upto_count k (concat (map fst batches))). rkm_err m \<noteq> OTHER_ERROR \<Longrightarrow>
     exit_eof cf \<longrightarrow> eof_inv cf n obs s
        \<and> (\<forall>m \<in> set (upto_count k (concat (map fst batches))).
              rkm_err m = PARTITION_EOF \<longrightarrow> wanted cf n (rkm_partition m))
        \<and> int (card (obs \<union> eof_partitions (upto_count k (concat (map fst batches)))))
            < part_eof_thres s \<Longrightarrow>
     \<exists>s'. consumer_loop cf w batches s = Some (Inr s') \<and> \<not> run s' \<and> rx s' = msg_cnt cf
        \<and> rendered s' = rendered s @ take k (data_msgs (concat (map fst batches)))
        \<and> stored s' = stored s @ offset_stores (upto_count k (concat (map fst batches)))"
proof (induction batches arbitrary: s k obs)
  case Nil
  then show ?case by (simp add: data_msgs_def)
next
  case (Cons b bs)
  let ?ms = "fst b"
  let ?rest = "concat (map fst bs)"
  let ?d = "length (data_msgs ?ms)"
  let ?s0 = "read_run w s"
  have all: "concat (map fst (b # bs)) = ?ms @ ?rest" by simp
  have dm: "data_msgs (?ms @ ?rest) = data_msgs ?ms @ data_msgs ?rest"
    by (simp add: data_msgs_def)
  from Cons.prems(2) sg have r0: "run ?s0" by (simp add: read_run_def)
  have k0: "rx ?s0 = rx s" "rendered ?s0 = rendered s" "stored ?s0 = stored s"
    "part_eof_thres ?s0 = part_eof_thres s"
    by (simp_all add: read_run_def)
  have inv0: "eof_inv cf n obs ?s0" if "eof_inv cf n obs s"
    using that Cons.prems(2) r0 by (intro eof_inv_same [OF that]) (simp_all add: read_run_def)
  from Cons.prems(1) have evb: "Err_all_brokers_down \<notin> set (snd b)"
    and evs: "\<forall>b \<in> set bs. Err_all_brokers_down \<notin> set (snd b)"
    by simp_all
  show ?case
  proof (cases "?d < k")
    case True
    have up: "upto_count k (?ms @ ?rest) = ?ms @ upto_count (k - ?d) ?rest"
      using True by (rule upto_count_append_lt)
    have wfm: "\<forall>m \<in> set ?ms. rkm_err m \<noteq> OTHER_ERROR"
      using Cons.prems(7) unfolding all up by simp
    have lim: "?d \<le> unat (msg_cnt cf - rx ?s0 - 1)"
      using True Cons.prems(3) word_of_nat_pred [OF Cons.prems(4,5)] by (simp add: k0)
    have e1: "exit_eof cf \<longrightarrow> eof_inv cf n obs ?s0
        \<and> (\<forall>m \<in> set ?ms. rkm_err m = PARTITION_EOF \<longrightarrow> wanted cf n (rkm_partition m))
        \<and> int (card (obs \<union> eof_partitions ?ms)) < part_eof_thres ?s0"
    proof
      assume ee: "exit_eof cf"
      with Cons.prems(8) have inv: "eof_inv cf n obs s"
        and w: "\<forall>m \<in> set (upto_count k (?ms @ ?rest)).
              rkm_err m = PARTITION_EOF \<longrightarrow> wanted cf n (rkm_partition m)"
        and c: "int (card (obs \<union> eof_partitions (upto_count k (?ms @ ?rest)))) < part_eof_thres s"
        unfolding all by simp_all
      from inv have "finite obs"
        using wanted_finite [of obs cf n] by (simp add: eof_inv_def)
      then have fin: "finite (obs \<union> eof_partitions (upto_count k (?ms @ ?rest)))"
        by (simp add: eof_partitions_def)
      have "obs \<union> eof_partitions ?ms \<subseteq> obs \<union> eof_partitions (upto_count k (?ms @ ?rest))"
        unfolding up by (auto simp: eof_partitions_append)
      from card_mono [OF fin this] c
      have "int (card (obs \<union> eof_partitions ?ms)) < part_eof_thres ?s0"
        by (simp add: k0)
      with inv0 [OF inv] w show "eof_inv cf n obs ?s0
        \<and> (\<forall>m \<in> set ?ms. rkm_err m = PARTITION_EOF \<longrightarrow> wanted cf n (rkm_partition m))
        \<and> int (card (obs \<union> eof_partitions ?ms)) < part_eof_thres ?s0"
        unfolding up by simp
    qed
    from running_prefix [OF sg r0 wfm lim e1] obtain s2 where
      s2: "consume_callback_queue cf w ?ms ?s0 = Inr s2" "run s2"
        "rx s2 = rx ?s0 + of_nat ?d" "rendered s2 = rendered ?s0 @ data_msgs ?ms"
        "stored s2 = stored ?s0 @ offset_stores ?ms" "part_eof_thres s2 = part_eof_thres ?s0"
        "exit_eof cf \<longrightarrow> eof_inv cf n (obs \<union> eof_partitions ?ms) s2"
      by blast
    from rd_kafka_poll_total [OF evb] obtain s3 where p: "rd_kafka_poll 0 (snd b) s2 = Inr s3"
      by blast
    note kp = rd_kafka_poll_keeps [OF p]
    from kp s2(2) have r3: "run s3" by simp
    have c3: "msg_cnt cf = rx s3 + of_nat (k - ?d)"
    proof -
      from True have "of_nat k = (of_nat ?d + of_nat (k - ?d) :: 64 word)"
        by (simp flip: of_nat_add)
      with Cons.prems(3) kp s2(3) k0 show ?thesis by simp
    qed
    have kd: "0 < k - ?d" "k - ?d < 2 ^ 64"
      using True Cons.prems(5) by simp_all
    have en: "k - ?d \<le> length (data_msgs ?rest)"
      using Cons.prems(6) unfolding all dm by simp
    have wf3: "\<forall>m \<in> set (upto_count (k - ?d) ?rest). rkm_err m \<noteq> OTHER_ERROR"
      using Cons.prems(7) unfolding all up by simp
    have e3: "exit_eof cf \<longrightarrow> eof_inv cf n (obs \<union> eof_partitions ?ms) s3
        \<and> (\<forall>m \<in> set (upto_count (k - ?d) ?rest).
              rkm_err m = PARTITION_EOF \<longrightarrow> wanted cf n (rkm_partition m))
        \<and> int (card ((obs \<union> eof_partitions ?ms) \<union> eof_partitions (upto_count (k - ?d) ?rest)))
            < part_eof_thres s3"
    proof
      assume ee: "exit_eof cf"
      with s2(7) have "eof_inv cf n (obs \<union> eof_partitions ?ms) s2" by simp
      from eof_inv_same [OF this] kp have i3: "eof_inv cf n (obs \<union> eof_partitions ?ms) s3"
        by simp
      from ee Cons.prems(8)
      have w: "\<forall>m \<in> set (upto_count k (?ms @ ?rest)).
              rkm_err m = PARTITION_EOF \<longrightarrow> wanted cf n (rkm_partition m)"
        and c: "int (card (obs \<union> eof_partitions (upto_count k (?ms @ ?rest)))) < part_eof_thres s"
        unfolding all by simp_all
      have "(obs \<union> eof_partitions ?ms) \<union> eof_partitions (upto_count (k - ?d) ?rest)
          = obs \<union> eof_partitions (upto_count k (?ms @ ?rest))"
        unfolding up by (auto simp: eof_partitions_append)
      with c kp s2(6) k0
      have "int (card ((obs \<union> eof_partitions ?ms) \<union> eof_partitions (upto_count (k - ?d) ?rest)))
            < part_eof_thres s3"
        by simp
      with i3 w show "eof_inv cf n (obs \<union> eof_partitions ?ms) s3
        \<and> (\<forall>m \<in> set (upto_count (k - ?d) ?rest).
              rkm_err m = PARTITION_EOF \<longrightarrow> wanted cf n (rkm_partition m))
        \<and> int (card ((obs \<union> eof_partitions ?ms) \<union> eof_partitions (upto_count (k - ?d) ?rest)))
            < part_eof_thres s3"
        unfolding up by simp
    qed
    from Cons.IH [OF evs r3 c3 kd en wf3 e3] obtain s' where
      s': "consumer_loop cf w bs s3 = Some (Inr s')" "\<not> run s'" "rx s' = msg_cnt cf"
        "rendered s' = rendered s3 @ take (k - ?d) (data_msgs ?rest)"
        "stored s' = stored s3 @ offset_stores (upto_count (k - ?d) ?rest)"
      by blast
    have loop: "consumer_loop cf w (b # bs) s = consumer_loop cf w bs s3"
      using r0 s2(1) p by (simp add: Let_def)
    have rd: "rendered s' = rendered s @ take k (data_msgs (?ms @ ?rest))"
      using s'(4) kp s2(4) k0 True unfolding dm by simp
    have st: "stored s' = stored s @ offset_stores (upto_count k (?ms @ ?rest))"
      using s'(5) kp s2(5) k0 unfolding up by (simp add: offset_stores_def)
    from loop s' rd st show ?thesis
      unfolding all by (intro exI [of _ s']) simp
  next
    case False
    then have ge: "k \<le> ?d" by simp
    have up: "upto_count k (?ms @ ?rest) = upto_count k ?ms"
      using ge by (rule upto_count_append_ge)
    have c0: "msg_cnt cf = rx ?s0 + of_nat k"
      using Cons.prems(3) by (simp add: k0)
    have wfm: "\<forall>m \<in> set (upto_count k ?ms). rkm_err m \<noteq> OTHER_ERROR"
      using Cons.prems(7) unfolding all up by simp
    have e1: "exit_eof cf \<longrightarrow> eof_inv cf n obs ?s0
        \<and> (\<forall>m \<in> set (upto_count k ?ms). rkm_err m = PARTITION_EOF \<longrightarrow> wanted cf n (rkm_partition m))
        \<and> int (card (obs \<union> eof_partitions (upto_count k ?ms))) < part_eof_thres ?s0"
      using Cons.prems(8) inv0 unfolding all up by (simp add: k0)
    from batch_with_limit [OF sg r0 c0 Cons.prems(4,5) ge wfm e1] obtain s2 where
      s2: "consume_callback_queue cf w ?ms ?s0 = Inr s2" "\<not> run s2" "rx s2 = msg_cnt cf"
        "rendered s2 = rendered ?s0 @ take k (data_msgs ?ms)"
        "stored s2 = stored ?s0 @ offset_stores (upto_count k ?ms)"
      by blast
    from rd_kafka_poll_total [OF evb] obtain s3 where p: "rd_kafka_poll 0 (snd b) s2 = Inr s3"
      by blast
    note kp = rd_kafka_poll_keeps [OF p]
    from kp s2(2) have r3: "\<not> run s3" by simp
    then have stop: "consumer_loop cf w bs s3 = Some (Inr (read_run w s3))"
      by (cases bs) (simp_all add: Let_def read_run_def)
    have loop: "consumer_loop cf w (b # bs) s = Some (Inr (read_run w s3))"
      using r0 s2(1) p stop by (simp add: Let_def)
    have tk: "take k (data_msgs (?ms @ ?rest)) = take k (data_msgs ?ms)"
      using ge unfolding dm by simp
    from loop r3 kp s2 k0 show ?thesis
      unfolding all up tk by (intro exI [of _ "read_run w s3"]) (simp add: read_run_def)
  qed
qed

text \<open>
  C7. With a message-count limit \<open>N > 0\<close>, from the state that \<open>consumer_run\<close> sets up
  with no message received yet, when the queue delivers at least \<open>N\<close> messages proper,
  and no signal, no consume error and no fatal error event arrives and (with exit-at-EOF
  on) the EOF threshold is not reached before the \<open>N\<close>-th message: the receive loop
  ends with the run flag cleared; exactly the first \<open>N\<close> messages proper have been
  rendered, in order; the offsets stored are those of the messages up to and including
  the \<open>N\<close>-th message proper, so no later message, of the same batch or of a later one,
  is rendered or stored; EOF markers among them are stored but not counted.
\<close>

theorem message_count_limit:
  assumes N: "0 < N" "N < 2 ^ 63" and cnt: "msg_cnt cf = of_nat N"
    and sg: "\<forall>k. \<not> w_signal w k"
    and init: "consumer_init cf md s0 = Inr s"
    and s0: "run s0" "rx s0 = 0" "part_eof_cnt s0 = 0"
    and ev: "\<forall>b \<in> set batches. Err_all_brokers_down \<notin> set (snd b)"
    and enough: "N \<le> length (data_msgs (concat (map fst batches)))"
    and wf: "\<forall>m \<in> set (upto_count N (concat (map fst batches))). rkm_err m \<noteq> OTHER_ERROR
               \<and> (exit_eof cf \<and> rkm_err m = PARTITION_EOF
                    \<longrightarrow> wanted cf (length (partitions md)) (rkm_partition m))"
    and eof: "exit_eof cf \<longrightarrow>
                int (card (eof_partitions (upto_count N (concat (map fst batches)))))
                  < part_eof_thres s"
  shows "\<exists>s'. consumer_loop cf w batches s = Some (Inr s') \<and> \<not> run s' \<and> rx s' = msg_cnt cf
          \<and> rendered s' = rendered s @ take N (data_msgs (concat (map fst batches)))
          \<and> length (rendered s') = length (rendered s) + N
          \<and> stored s' = stored s @ offset_stores (upto_count N (concat (map fst batches)))"
proof -
  let ?n = "length (partitions md)"
  let ?msgs = "concat (map fst batches)"
  have st: "run s \<and> rx s = 0"
    using init s0 by (auto simp: consumer_init_def split: if_splits)
  then have r: "run s" and c: "msg_cnt cf = rx s + of_nat N"
    using cnt by simp_all
  have N64: "N < 2 ^ 64"
    using N(2) by (rule less_trans) simp
  have wf1: "\<forall>m \<in> set (upto_count N ?msgs). rkm_err m \<noteq> OTHER_ERROR"
    using wf by blast
  have e: "exit_eof cf \<longrightarrow> eof_inv cf ?n {} s
        \<and> (\<forall>m \<in> set (upto_count N ?msgs). rkm_err m = PARTITION_EOF \<longrightarrow> wanted cf ?n (rkm_partition m))
        \<and> int (card ({} \<union> eof_partitions (upto_count N ?msgs))) < part_eof_thres s"
  proof
    assume ee: "exit_eof cf"
    from consumer_init_inv [OF ee init s0(3,1)] have "eof_inv cf ?n {} s" by simp
    with ee wf eof show "eof_inv cf ?n {} s
        \<and> (\<forall>m \<in> set (upto_count N ?msgs). rkm_err m = PARTITION_EOF \<longrightarrow> wanted cf ?n (rkm_partition m))
        \<and> int (card ({} \<union> eof_partitions (upto_count N ?msgs))) < part_eof_thres s"
      by simp
  qed
  from consumer_loop_limit [OF sg ev r c N(1) N64 enough wf1 e] obtain s' where
    s': "consumer_loop cf w batches s = Some (Inr s')" "\<not> run s'" "rx s' = msg_cnt cf"
      "rendered s' = rendered s @ take N (data_msgs ?msgs)"
      "stored s' = stored s @ offset_stores (upto_count N ?msgs)"
    by blast
  from s'(4) enough have "length (rendered s') = length (rendered s) + N"
    by simp
  with s' show ?thesis by blast
qed

text \<open>
  Limit 2, exit-at-EOF on, two partitions: the first batch holds a message, an EOF marker
  of partition 0, and two more messages; the second batch one more message. The loop
  ends after the second message of the first batch: two messages are rendered and three
  offsets stored.
\<close>

theorem message_count_limit_witness:
  "\<exists>s'. consumer_loop (conf_init\<lparr>msg_cnt := 2, exit_eof := True\<rparr>) quiet
      [([\<lparr>rkm_err = NO_ERROR, rkm_partition = 0, rkm_offset = 0, rkm_payload = Some [0x61], rkm_key = None\<rparr>,
         \<lparr>rkm_err = PARTITION_EOF, rkm_partition = 0, rkm_offset = 1, rkm_payload = None, rkm_key = None\<rparr>,
         \<lparr>rkm_err = NO_ERROR, rkm_partition = 1, rkm_offset = 5, rkm_payload = Some [0x62], rkm_key = None\<rparr>,
         \<lparr>rkm_err = NO_ERROR, rkm_partition = 1, rkm_offset = 6, rkm_payload = Some [0x63], rkm_key = None\<rparr>],
        [Err_other]),
       ([\<lparr>rkm_err = NO_ERROR, rkm_partition = 1, rkm_offset = 7, rkm_payload = Some [0x64], rkm_key = None\<rparr>],
        [])]
      (projr (consumer_init (conf_init\<lparr>msg_cnt := 2, exit_eof := True\<rparr>)
                \<lparr>md_failed = False, topic_cnt = 1, topic_err = False, partitions = [0, 1]\<rparr>
                (state_init [])))
      = Some (Inr s')
    \<and> \<not> run s'
    \<and> rendered s' =
        [\<lparr>rkm_err = NO_ERROR, rkm_partition = 0, rkm_offset = 0, rkm_payload = Some [0x61], rkm_key = None\<rparr>,
         \<lparr>rkm_err = NO_ERROR, rkm_partition = 1, rkm_offset = 5, rkm_payload = Some [0x62], rkm_key = None\<rparr>]
    \<and> stored s' = [(0, 0), (0, 0), (1, 5)]"
proof -
  let ?cf = "conf_init\<lparr>msg_cnt := 2, exit_eof := True\<rparr>"
  let ?md = "\<lparr>md_failed = False, topic_cnt = 1, topic_err = False, partitions = [0, 1]\<rparr>"
  let ?d0 = "\<lparr>rkm_err = NO_ERROR, rkm_partition = 0, rkm_offset = 0,
              rkm_payload = Some [0x61::byte], rkm_key = None\<rparr>"
  let ?e0 = "\<lparr>rkm_err = PARTITION_EOF, rkm_partition = 0, rkm_offset = 1,
              rkm_payload = None, rkm_key = None\<rparr>"
  let ?d1 = "\<lparr>rkm_err = NO_ERROR, rkm_partition = 1, rkm_offset = 5,
              rkm_payload = Some [0x62::byte], rkm_key = None\<rparr>"
  let ?d2 = "\<lparr>rkm_err = NO_ERROR, rkm_partition = 1, rkm_offset = 6,
              rkm_payload = Some [0x63::byte], rkm_key = None\<rparr>"
  let ?d3 = "\<lparr>rkm_err = NO_ERROR, rkm_partition = 1, rkm_offset = 7,
              rkm_payload = Some [0x64::byte], rkm_key = None\<rparr>"
  let ?bs = "[([?d0, ?e0, ?d1, ?d2], [Err_other]), ([?d3], [])]"
  let ?s = "projr (consumer_init ?cf ?md (state_init []))"
  have N: "0 < (2::nat)" "(2::nat) < 2 ^ 63" by simp_all
  have cnt: "msg_cnt ?cf = of_nat 2" by simp
  have sg: "\<forall>k. \<not> w_signal quiet k" by (simp add: quiet_def)
  have init: "consumer_init ?cf ?md (state_init []) = Inr ?s"
    by (simp add: consumer_init_def)
  have s0: "run (state_init [])" "rx (state_init []) = 0" "part_eof_cnt (state_init []) = 0"
    by (simp_all add: state_init_def)
  have ev: "\<forall>b \<in> set ?bs. Err_all_brokers_down \<notin> set (snd b)" by simp
  have cc: "concat (map fst ?bs) = [?d0, ?e0, ?d1, ?d2, ?d3]" by simp
  have up: "upto_count 2 [?d0, ?e0, ?d1, ?d2, ?d3] = [?d0, ?e0, ?d1]"
    by (simp add: numeral_2_eq_2)
  have dm: "data_msgs [?d0, ?e0, ?d1, ?d2, ?d3] = [?d0, ?d1, ?d2, ?d3]"
    by (simp add: data_msgs_def)
  have enough: "2 \<le> length (data_msgs (concat (map fst ?bs)))"
    unfolding cc dm by simp
  have wf: "\<forall>m \<in> set (upto_count 2 (concat (map fst ?bs))). rkm_err m \<noteq> OTHER_ERROR
      \<and> (exit_eof ?cf \<and> rkm_err m = PARTITION_EOF
            \<longrightarrow> wanted ?cf (length (partitions ?md)) (rkm_partition m))"
    unfolding cc up by (simp add: wanted_def conf_init_def)
  have th: "part_eof_thres ?s = 2"
    by (simp add: consumer_init_def conf_init_def state_init_def RD_KAFKA_PARTITION_UA_def)
  have eof: "exit_eof ?cf \<longrightarrow>
      int (card (eof_partitions (upto_count 2 (concat (map fst ?bs))))) < part_eof_thres ?s"
    unfolding cc up th by (simp add: eof_partitions_def)
  from message_count_limit [OF N cnt sg init s0 ev enough wf eof, unfolded cc up dm]
  obtain s' where "consumer_loop ?cf quiet ?bs ?s = Some (Inr s')" "\<not> run s'"
    "rendered s' = rendered ?s @ take 2 [?d0, ?d1, ?d2, ?d3]"
    "stored s' = stored ?s @ offset_stores [?d0, ?e0, ?d1]"
    by blast
  moreover have "rendered ?s = []" "stored ?s = []"
    by (simp_all add: consumer_init_def state_init_def)
  ultimately show ?thesis
    by (intro exI [of _ s']) (simp add: offset_stores_def)
qed

end
